theory Spec2Isabelle
  imports Main "HOL-Library.Word"
begin

unbundle bit_operations_syntax

section \<open>Values of the Go program\<close>

text \<open>
  A Go \<open>error\<close> value. \<open>SkipDir\<close> and \<open>SkipAll\<close> are the two sentinel errors of
  \<open>path/filepath\<close>; every other error (from the operating system, from \<open>regexp\<close>)
  carries its message. \<open>NilDeref\<close> stands for the run-time panic of calling a method
  on a nil \<open>FileInfo\<close>.
\<close>

datatype error = SkipDir | SkipAll | NilDeref | OSError string

fun errorString :: "error \<Rightarrow> string" where
  "errorString SkipDir = ''skip this directory''"
| "errorString SkipAll = ''skip everything and stop the walk''"
| "errorString NilDeref = ''invalid memory address or nil pointer dereference''"
| "errorString (OSError m) = m"

text \<open>\<open>os.FileMode\<close> is a 32-bit mask; the type bits are those of package \<open>io/fs\<close>.\<close>

type_synonym FileMode = "32 word"

definition ModeDir :: FileMode where "ModeDir = push_bit 31 1"
definition ModeSymlink :: FileMode where "ModeSymlink = push_bit 27 1"
definition ModeDevice :: FileMode where "ModeDevice = push_bit 26 1"
definition ModeNamedPipe :: FileMode where "ModeNamedPipe = push_bit 25 1"
definition ModeSocket :: FileMode where "ModeSocket = push_bit 24 1"
definition ModeCharDevice :: FileMode where "ModeCharDevice = push_bit 21 1"
definition ModeIrregular :: FileMode where "ModeIrregular = push_bit 19 1"

definition ModeType :: FileMode where
  "ModeType = ModeDir OR ModeSymlink OR ModeNamedPipe OR ModeSocket OR ModeDevice
              OR ModeCharDevice OR ModeIrregular"

text \<open>\<open>syscall.Stat_t\<close>, reduced to the two fields the program reads.\<close>

record Stat_t =
  Ino :: "64 word"
  Nlink :: "64 word"

text \<open>
  \<open>fs.FileInfo\<close>: the mode, and \<open>Sys()\<close>, which is \<open>Some\<close> exactly when the type
  assertion \<open>info.Sys().(*syscall.Stat_t)\<close> succeeds.
\<close>

record FileInfo =
  Mode :: FileMode
  Sys :: "Stat_t option"

definition IsDir :: "FileInfo \<Rightarrow> bool" where
  "IsDir info = (Mode info AND ModeDir \<noteq> 0)"

definition IsRegular :: "FileMode \<Rightarrow> bool" where
  "IsRegular m = (m AND ModeType = 0)"

text \<open>The hashers the \<open>switch\<close> of \<open>worker\<close> can construct.\<close>

datatype hashkind =
  CRC32 | CRC64 | MD5 | SHA1 | SHA256 | SHA512 | SHA3_512 | SHA3_256
  | BLAKE2B_512 | BLAKE2B_256 | WHIRLPOOL

text \<open>
  What the program asks of the operating system and of the hash libraries, as functions:
  \<open>Lstat\<close> and \<open>Readlink\<close> answer by path; \<open>Open\<close> either fails or gives a file whose
  complete read (\<open>io.Copy\<close>) either fails or gives the bytes; \<open>Sum\<close> is the digest of
  a byte string under a hasher.
\<close>

record env =
  Lstat :: "string \<Rightarrow> error + FileInfo"
  Readlink :: "string \<Rightarrow> error + string"
  Open :: "string \<Rightarrow> error + (error + string)"
  Sum :: "hashkind \<Rightarrow> string \<Rightarrow> string"

subsection \<open>Formatting\<close>

definition hexdigit :: "nat \<Rightarrow> char" where
  "hexdigit d = ''0123456789abcdef'' ! d"

text \<open>The verb \<open>%x\<close> on a byte slice: two lower-case hexadecimal digits per byte.\<close>

fun hex :: "string \<Rightarrow> string" where
  "hex [] = []"
| "hex (c # cs) = hexdigit (of_char c div 16) # hexdigit (of_char c mod 16) # hex cs"

text \<open>The verb \<open>%d\<close> on an unsigned integer.\<close>

fun decimal :: "nat \<Rightarrow> string" where
  "decimal n = (if n < 10 then [''0123456789'' ! n]
                else decimal (n div 10) @ [''0123456789'' ! (n mod 10)])"

declare decimal.simps [simp del]

section \<open>The file worker\<close>

text \<open>
  What workers share and what they leave behind: the hard-link cache (the \<open>sync.Map\<close>),
  the lines written to standard output and to standard error, and the paths handed to
  \<open>os.Open\<close>, in order.
\<close>

record shared =
  hardLinks :: "64 word \<rightharpoonup> string"
  stdout :: "string list"
  stderr :: "string list"
  opened :: "string list"

text \<open>\<open>sync.Map.Load\<close> and \<open>sync.Map.Store\<close>; \<open>Store\<close> sets the value for a key.\<close>

definition Load :: "(64 word \<rightharpoonup> string) \<Rightarrow> 64 word \<Rightarrow> string option" where
  "Load m k = m k"

definition Store :: "(64 word \<rightharpoonup> string) \<Rightarrow> 64 word \<Rightarrow> string \<Rightarrow> (64 word \<rightharpoonup> string)" where
  "Store m k v = m(k \<mapsto> v)"

text \<open>The \<open>switch hashalgo\<close>: the hasher, and what the default case prints.\<close>

definition newHasher :: "string \<Rightarrow> hashkind \<times> string list" where
  "newHasher hashalgo =
     (if hashalgo = ''crc32'' then (CRC32, [])
      else if hashalgo = ''crc64'' then (CRC64, [])
      else if hashalgo = ''md5'' then (MD5, [])
      else if hashalgo = ''sha1'' then (SHA1, [])
      else if hashalgo = ''sha256'' then (SHA256, [])
      else if hashalgo = ''sha512'' then (SHA512, [])
      else if hashalgo = ''sha3-512'' then (SHA3_512, [])
      else if hashalgo = ''sha3-256'' then (SHA3_256, [])
      else if hashalgo = ''blake2b-512'' then (BLAKE2B_512, [])
      else if hashalgo = ''blake2b-256'' then (BLAKE2B_256, [])
      else if hashalgo = ''whirlpool'' then (WHIRLPOOL, [])
      else (SHA256, [''unsupported hash algorithm '' @ hashalgo @ '' falling back to sha256'']))"

definition reusedLine :: "string \<Rightarrow> string \<Rightarrow> string" where
  "reusedLine h path = h @ ''  '' @ path @ ''  *\<newline>''"

definition computedLine :: "string \<Rightarrow> string \<Rightarrow> string" where
  "computedLine hash path = hex hash @ ''  '' @ path @ ''  -\<newline>''"

text \<open>
  \<open>worker\<close>, run from its first statement to its return with nothing in between:
  the returned error (\<open>None\<close> is \<open>nil\<close>) and the state it leaves.
\<close>

definition worker :: "env \<Rightarrow> string \<Rightarrow> FileInfo \<Rightarrow> string \<Rightarrow> shared \<Rightarrow> error option \<times> shared" where
  "worker os path info hashalgo st =
     (case (case Sys info of None \<Rightarrow> None | Some stat \<Rightarrow> Load (hardLinks st) (Ino stat)) of
        Some h \<Rightarrow> (None, st\<lparr>stdout := stdout st @ [reusedLine h path]\<rparr>)
      | None \<Rightarrow>
          (let (hasher, warning) = newHasher hashalgo;
               st1 = st\<lparr>stderr := stderr st @ warning, opened := opened st @ [path]\<rparr>
           in case Open os path of
                Inl err \<Rightarrow> (Some err, st1)
              | Inr file \<Rightarrow>
                  (case file of
                     Inl err \<Rightarrow> (Some err, st1)
                   | Inr bytes \<Rightarrow>
                       (let hash = Sum os hasher bytes;
                            st2 = (case Sys info of
                                     None \<Rightarrow> st1
                                   | Some stat \<Rightarrow>
                                       if 1 < Nlink stat
                                       then st1\<lparr>hardLinks := Store (hardLinks st1) (Ino stat) (hex hash)\<rparr>
                                       else st1)
                        in (None, st2\<lparr>stdout := stdout st2 @ [computedLine hash path]\<rparr>)))))"

section \<open>The symlink resolver\<close>

definition checkSymlink :: "env \<Rightarrow> string \<Rightarrow> error + (bool \<times> string)" where
  "checkSymlink os path =
     (case Lstat os path of
        Inl err \<Rightarrow> Inl err
      | Inr fileInfo \<Rightarrow>
          if Mode fileInfo AND ModeSymlink \<noteq> 0
          then (case Readlink os path of
                  Inl err \<Rightarrow> Inl err
                | Inr target \<Rightarrow> Inr (True, target))
          else Inr (False, []))"

section \<open>The tree walker\<close>

text \<open>
  What the walk changes: the counter \<open>filecount\<close>, the tasks handed to \<open>eg.Go\<close> (the
  path and the \<open>FileInfo\<close> each closure captures), in order, and the lines the walk
  writes to standard error.
\<close>

record walk_state =
  filecount :: "64 word"
  submitted :: "(string \<times> FileInfo) list"
  diag :: "string list"

text \<open>
  A compiled pattern is its \<open>MatchString\<close>; \<open>None\<close> is the nil pattern. The test
  \<open>excludePattern != nil && excludePattern.MatchString(path)\<close>:
\<close>

definition excluded :: "(string \<Rightarrow> bool) option \<Rightarrow> string \<Rightarrow> bool" where
  "excluded excludePattern path = (excludePattern \<noteq> None \<and> (the excludePattern) path)"

text \<open>The function literal passed to \<open>filepath.Walk\<close>.\<close>

definition walkFn ::
  "env \<Rightarrow> bool \<Rightarrow> (string \<Rightarrow> bool) option \<Rightarrow> string \<Rightarrow> FileInfo option \<Rightarrow> error option
   \<Rightarrow> walk_state \<Rightarrow> error option \<times> walk_state" where
  "walkFn os followSymlinks excludePattern path info err s =
     (case err of
        Some e \<Rightarrow>
          (None, s\<lparr>diag := diag s @ [''unable to walk '' @ path @ '': '' @ errorString e @ ''\<newline>'']\<rparr>)
      | None \<Rightarrow>
          (case info of
             None \<Rightarrow> (Some NilDeref, s)
           | Some info \<Rightarrow>
               if IsDir info then
                 (if excluded excludePattern path then (Some SkipDir, s) else (None, s))
               else if excluded excludePattern path then (None, s)
               else if IsRegular (Mode info) then
                 (None, s\<lparr>filecount := filecount s + 1, submitted := submitted s @ [(path, info)]\<rparr>)
               else if followSymlinks then
                 (case checkSymlink os path of
                    Inl e \<Rightarrow>
                      (None, s\<lparr>diag := diag s @ [''error reading symlink '' @ path @ '': ''
                                                   @ errorString e @ ''\<newline>'']\<rparr>)
                  | Inr (isSymlink, target) \<Rightarrow>
                      if isSymlink
                      then (None, s\<lparr>filecount := filecount s + 1,
                                     submitted := submitted s @ [(target, info)]\<rparr>)
                      else (None, s))
               else (None, s\<lparr>diag := diag s @ [''skipping non-regular file '' @ path @ ''\<newline>'']\<rparr>)))"

subsection \<open>\<open>filepath.Walk\<close>\<close>

text \<open>
  The directory tree as \<open>filepath.Walk\<close> meets it: for each object the answer of
  \<open>Lstat\<close>, the error of reading its directory (if any), and its entries by name, in the
  lexical order of \<open>readDirNames\<close>.
\<close>

datatype fstree =
  FsTree (lstat_of: "error + FileInfo") (readdir_err: "error option") (entries: "(string \<times> fstree) list")

text \<open>\<open>filepath.Join\<close> of a clean directory path and an entry name.\<close>

definition Join :: "string \<Rightarrow> string \<Rightarrow> string" where
  "Join dir name = (if dir = ''/'' then dir @ name else dir @ ''/'' @ name)"

text \<open>
  The standard library's \<open>walk\<close> and its loop over the names of a directory, for any
  callback \<open>walkFn\<close> over any state.
\<close>

fun walk ::
  "(string \<Rightarrow> FileInfo option \<Rightarrow> error option \<Rightarrow> 's \<Rightarrow> error option \<times> 's)
   \<Rightarrow> string \<Rightarrow> FileInfo \<Rightarrow> fstree \<Rightarrow> 's \<Rightarrow> error option \<times> 's"
and walk_names ::
  "(string \<Rightarrow> FileInfo option \<Rightarrow> error option \<Rightarrow> 's \<Rightarrow> error option \<times> 's)
   \<Rightarrow> string \<Rightarrow> (string \<times> fstree) list \<Rightarrow> 's \<Rightarrow> error option \<times> 's" where
  "walk fn path info (FsTree l rd ents) s =
     (if \<not> IsDir info then fn path (Some info) None s
      else (case fn path (Some info) rd s of
              (err1, s1) \<Rightarrow>
                if rd \<noteq> None \<or> err1 \<noteq> None then (err1, s1)
                else walk_names fn path ents s1))"
| "walk_names fn path [] s = (None, s)"
| "walk_names fn path ((name, t) # rest) s =
     (case lstat_of t of
        Inl e \<Rightarrow>
          (case fn (Join path name) None (Some e) s of
             (err, s1) \<Rightarrow>
               if err \<noteq> None \<and> err \<noteq> Some SkipDir then (err, s1)
               else walk_names fn path rest s1)
      | Inr fileInfo \<Rightarrow>
          (case walk fn (Join path name) fileInfo t s of
             (err, s1) \<Rightarrow>
               if err \<noteq> None \<and> (\<not> IsDir fileInfo \<or> err \<noteq> Some SkipDir) then (err, s1)
               else walk_names fn path rest s1))"

definition Walk ::
  "(string \<Rightarrow> FileInfo option \<Rightarrow> error option \<Rightarrow> 's \<Rightarrow> error option \<times> 's)
   \<Rightarrow> string \<Rightarrow> fstree \<Rightarrow> 's \<Rightarrow> error option \<times> 's" where
  "Walk fn root t s =
     (case (case lstat_of t of
              Inl e \<Rightarrow> fn root None (Some e) s
            | Inr info \<Rightarrow> walk fn root info t s) of
        (err, s1) \<Rightarrow>
          if err = Some SkipDir \<or> err = Some SkipAll then (None, s1) else (err, s1))"

text \<open>
  \<open>walkDirectory\<close>: the result of \<open>filepath.Walk\<close> is dropped; the count is returned,
  and the submissions and diagnostics are its effects.
\<close>

definition walk_init :: walk_state where
  "walk_init = \<lparr>filecount = 0, submitted = [], diag = []\<rparr>"

definition walkDirectory ::
  "env \<Rightarrow> string \<Rightarrow> fstree \<Rightarrow> bool \<Rightarrow> (string \<Rightarrow> bool) option \<Rightarrow> walk_state" where
  "walkDirectory os dir t followSymlinks excludePattern =
     snd (Walk (walkFn os followSymlinks excludePattern) dir t walk_init)"

section \<open>A sample file system\<close>

text \<open>
  A small tree under \<open>/r\<close>: two hard links to one file, an entry whose \<open>Lstat\<close>
  fails, a symbolic link with a relative target, a directory that cannot be listed, a
  symbolic link into the directory \<open>secret\<close>, a named pipe, the directory \<open>secret\<close>
  and a symbolic link that cannot be read. \<open>/r/usb/c.txt\<close> is a file of another file
  system. The digest of the sample is the reversed content under \<open>SHA256\<close> and the
  content itself under any other hasher.
\<close>

definition file_info :: "64 word \<Rightarrow> 64 word \<Rightarrow> FileInfo" where
  "file_info ino nlink = \<lparr>Mode = 420, Sys = Some \<lparr>Ino = ino, Nlink = nlink\<rparr>\<rparr>"
definition dir_info :: "64 word \<Rightarrow> FileInfo" where
  "dir_info ino = \<lparr>Mode = ModeDir OR 493, Sys = Some \<lparr>Ino = ino, Nlink = 2\<rparr>\<rparr>"
definition link_info :: "64 word \<Rightarrow> FileInfo" where
  "link_info ino = \<lparr>Mode = ModeSymlink OR 511, Sys = Some \<lparr>Ino = ino, Nlink = 1\<rparr>\<rparr>"
definition fifo_info :: "64 word \<Rightarrow> FileInfo" where
  "fifo_info ino = \<lparr>Mode = ModeNamedPipe OR 420, Sys = Some \<lparr>Ino = ino, Nlink = 1\<rparr>\<rparr>"

definition leaf :: "FileInfo \<Rightarrow> fstree" where
  "leaf info = FsTree (Inr info) None []"

definition gone_node :: fstree where
  "gone_node = FsTree (Inl (OSError ''lstat /r/gone: no such file or directory'')) None []"

definition locked_node :: fstree where
  "locked_node = FsTree (Inr (dir_info 3)) (Some (OSError ''open /r/locked: permission denied''))
                   [(''x.txt'', leaf (file_info 11 1))]"

definition secret_node :: fstree where
  "secret_node = FsTree (Inr (dir_info 4)) None [(''k.txt'', leaf (file_info 12 1))]"

definition demo_tree :: fstree where
  "demo_tree = FsTree (Inr (dir_info 1)) None
     [(''a.txt'', leaf (file_info 5 2)),
      (''b.txt'', leaf (file_info 5 2)),
      (''gone'', gone_node),
      (''link'', leaf (link_info 9)),
      (''locked'', locked_node),
      (''peek'', leaf (link_info 14)),
      (''pipe'', leaf (fifo_info 10)),
      (''secret'', secret_node),
      (''stale'', leaf (link_info 13))]"

definition demo_env :: env where
  "demo_env = \<lparr>
     Lstat = (\<lambda>p. if p = ''/r/link'' then Inr (link_info 9)
                  else if p = ''/r/peek'' then Inr (link_info 14)
                  else if p = ''/r/stale'' then Inr (link_info 13)
                  else if p = ''/r/pipe'' then Inr (fifo_info 10)
                  else Inl (OSError (''lstat '' @ p @ '': no such file or directory''))),
     Readlink = (\<lambda>p. if p = ''/r/link'' then Inr ''a.txt''
                     else if p = ''/r/peek'' then Inr ''/r/secret/k.txt''
                     else Inl (OSError (''readlink '' @ p @ '': input/output error''))),
     Open = (\<lambda>p. if p = ''/r/a.txt'' \<or> p = ''/r/b.txt'' then Inr (Inr ''hi'')
                 else if p = ''/r/secret/k.txt'' then Inr (Inr ''key'')
                 else if p = ''/r/usb/c.txt'' then Inr (Inr ''yo'')
                 else if p = ''/r/bad'' then Inr (Inl (OSError (''read /r/bad: input/output error'')))
                 else Inl (OSError (''open '' @ p @ '': no such file or directory''))),
     Sum = (\<lambda>k bytes. if k = SHA256 then rev bytes else bytes)\<rparr>"

definition secret_pattern :: "string \<Rightarrow> bool" where
  "secret_pattern p = (''/r/secret'' = take 9 p)"

text \<open>
  A callback that \<open>filepath.Walk\<close> never has to stop for: it returns nil, or
  \<open>SkipDir\<close> for a directory it was given without an error.
\<close>

definition polite :: "(string \<Rightarrow> FileInfo option \<Rightarrow> error option \<Rightarrow> 's \<Rightarrow> error option \<times> 's) \<Rightarrow> bool" where
  "polite fn = (\<forall>path info err s. info \<noteq> None \<or> err \<noteq> None \<longrightarrow>
      fst (fn path info err s) = None
      \<or> (fst (fn path info err s) = Some SkipDir \<and> err = None \<and> (\<exists>i. info = Some i \<and> IsDir i)))"

text \<open>The state before any worker has run.\<close>

definition st0 :: shared where
  "st0 = \<lparr>hardLinks = Map.empty, stdout = [], stderr = [], opened = []\<rparr>"

text \<open>
  A submitted path that the exclusion test let through: it does not match, or (with
  follow-symlinks) it is the target of a symbolic link whose own path does not match.
\<close>

definition vetted :: "env \<Rightarrow> bool \<Rightarrow> (string \<Rightarrow> bool) option \<Rightarrow> string \<times> FileInfo \<Rightarrow> bool" where
  "vetted os followSymlinks ex task =
     (\<not> excluded ex (fst task)
      \<or> (followSymlinks \<and> (\<exists>q. \<not> excluded ex q \<and> checkSymlink os q = Inr (True, fst task))))"

section \<open>Workers under interleaving\<close>

text \<open>The identifiers with a case of their own in the \<open>switch\<close> of \<open>worker\<close>.\<close>

definition supported :: "string list" where
  "supported = [''crc32'', ''crc64'', ''md5'', ''sha1'', ''sha256'', ''sha512'', ''sha3-512'',
                ''sha3-256'', ''blake2b-512'', ''blake2b-256'', ''whirlpool'']"

text \<open>
  Workers run as goroutines, so the statements of one worker interleave with those of the
  others. A worker is cut at its accesses to what is shared: where it stands is
  \<^item> \<open>AtLoad\<close>: before \<open>hardLinks.Load\<close>;
  \<^item> \<open>AtReuse h\<close>: \<open>Load\<close> found \<open>h\<close>, before the \<open>Printf\<close> of the reused line;
  \<^item> \<open>AtHasher\<close>: before the \<open>switch\<close> (whose default case writes the warning);
  \<^item> \<open>AtOpen k\<close>: hasher \<open>k\<close> chosen, before \<open>os.Open\<close>, \<open>io.Copy\<close> and \<open>Sum\<close>;
  \<^item> \<open>AtStore hash\<close>: digest computed, before the guarded \<open>hardLinks.Store\<close>;
  \<^item> \<open>AtPrint hash\<close>: before the \<open>Printf\<close> of the computed line;
  \<^item> \<open>Returned r\<close>: \<open>worker\<close> has returned \<open>r\<close>.
\<close>

datatype wpc =
  AtLoad | AtReuse string | AtHasher | AtOpen hashkind | AtStore string | AtPrint string
  | Returned "error option"

text \<open>One such piece of \<open>worker\<close>, for the task \<open>(path, info)\<close>.\<close>

fun wstep :: "env \<Rightarrow> string \<Rightarrow> string \<times> FileInfo \<Rightarrow> wpc \<Rightarrow> shared \<Rightarrow> wpc \<times> shared" where
  "wstep os hashalgo (path, info) AtLoad st =
     (case (case Sys info of None \<Rightarrow> None | Some stat \<Rightarrow> Load (hardLinks st) (Ino stat)) of
        Some h \<Rightarrow> (AtReuse h, st)
      | None \<Rightarrow> (AtHasher, st))"
| "wstep os hashalgo (path, info) (AtReuse h) st =
     (Returned None, st\<lparr>stdout := stdout st @ [reusedLine h path]\<rparr>)"
| "wstep os hashalgo (path, info) AtHasher st =
     (case newHasher hashalgo of
        (hasher, warning) \<Rightarrow> (AtOpen hasher, st\<lparr>stderr := stderr st @ warning\<rparr>))"
| "wstep os hashalgo (path, info) (AtOpen hasher) st =
     (let st1 = st\<lparr>opened := opened st @ [path]\<rparr>
      in case Open os path of
           Inl err \<Rightarrow> (Returned (Some err), st1)
         | Inr file \<Rightarrow>
             (case file of
                Inl err \<Rightarrow> (Returned (Some err), st1)
              | Inr bytes \<Rightarrow> (AtStore (Sum os hasher bytes), st1)))"
| "wstep os hashalgo (path, info) (AtStore hash) st =
     (AtPrint hash,
      case Sys info of
        None \<Rightarrow> st
      | Some stat \<Rightarrow>
          if 1 < Nlink stat
          then st\<lparr>hardLinks := Store (hardLinks st) (Ino stat) (hex hash)\<rparr>
          else st)"
| "wstep os hashalgo (path, info) (AtPrint hash) st =
     (Returned None, st\<lparr>stdout := stdout st @ [computedLine hash path]\<rparr>)"
| "wstep os hashalgo (path, info) (Returned r) st = (Returned r, st)"

text \<open>\<open>n\<close> pieces in a row, with no other goroutine in between.\<close>

fun wsteps :: "env \<Rightarrow> string \<Rightarrow> string \<times> FileInfo \<Rightarrow> nat \<Rightarrow> wpc \<Rightarrow> shared \<Rightarrow> wpc \<times> shared" where
  "wsteps os hashalgo task 0 pc st = (pc, st)"
| "wsteps os hashalgo task (Suc n) pc st =
     (case wstep os hashalgo task pc st of (pc', st') \<Rightarrow> wsteps os hashalgo task n pc' st')"

section \<open>The bounded scheduler\<close>

text \<open>
  \<open>errgroup.Group\<close> as the program uses it. \<open>pending\<close> are the tasks the walk has not yet
  handed to \<open>eg.Go\<close> (the walk is one thread and submits in its own order); \<open>running\<close>
  are the goroutines holding a slot, each with its number, its task and where it stands;
  \<open>started\<close> counts the calls of \<open>eg.Go\<close> that went through; \<open>returned\<close> lists, in the
  order in which the goroutines finished, what each task returned; \<open>firstErr\<close> is the
  error kept by the group's \<open>errOnce\<close>; \<open>mem\<close> is what the workers share.
\<close>

record pool =
  pending :: "(string \<times> FileInfo) list"
  running :: "(nat \<times> (string \<times> FileInfo) \<times> wpc) list"
  started :: nat
  returned :: "(nat \<times> error option) list"
  firstErr :: "error option"
  mem :: shared

definition pool_init :: "(string \<times> FileInfo) list \<Rightarrow> pool" where
  "pool_init tasks = \<lparr>pending = tasks, running = [], started = 0, returned = [],
                       firstErr = None, mem = st0\<rparr>"

text \<open>
  What can happen next: \<open>Go\<close>, the walk's next call of \<open>eg.Go\<close> going through, or
  \<open>Step i\<close>, goroutine \<open>i\<close> doing its next piece.
\<close>

datatype action = Go | Step nat

text \<open>\<open>eg.SetLimit(n)\<close> is called only for a positive pool size.\<close>

definition limit_of :: "int \<Rightarrow> nat option" where
  "limit_of poolSize = (if 0 < poolSize then Some (nat poolSize) else None)"

text \<open>
  \<open>eg.Go\<close> waits for a free slot when a limit is set: with the slots taken, \<open>Go\<close>
  cannot happen. A goroutine whose task has returned records the error if it is the
  first one (\<open>errOnce\<close>) and only then gives its slot back. \<open>None\<close>: the action cannot
  happen in this state.
\<close>

definition pool_step :: "env \<Rightarrow> string \<Rightarrow> nat option \<Rightarrow> action \<Rightarrow> pool \<Rightarrow> pool option" where
  "pool_step os hashalgo limit a p =
     (case a of
        Go \<Rightarrow>
          (case pending p of
             [] \<Rightarrow> None
           | task # rest \<Rightarrow>
               if (case limit of None \<Rightarrow> True | Some n \<Rightarrow> length (running p) < n)
               then Some (p\<lparr>pending := rest,
                            running := running p @ [(started p, task, AtLoad)],
                            started := started p + 1\<rparr>)
               else None)
      | Step i \<Rightarrow>
          (case map_of (running p) i of
             None \<Rightarrow> None
           | Some (task, Returned r) \<Rightarrow>
               Some (p\<lparr>running := filter (\<lambda>g. fst g \<noteq> i) (running p),
                        returned := returned p @ [(i, r)],
                        firstErr := (case firstErr p of None \<Rightarrow> r | Some e \<Rightarrow> Some e)\<rparr>)
           | Some (task, pc) \<Rightarrow>
               (case wstep os hashalgo task pc (mem p) of
                  (pc', m) \<Rightarrow>
                    Some (p\<lparr>running := map (\<lambda>g. if fst g = i then (i, task, pc') else g) (running p),
                             mem := m\<rparr>))))"

fun exec :: "env \<Rightarrow> string \<Rightarrow> nat option \<Rightarrow> action list \<Rightarrow> pool \<Rightarrow> pool option" where
  "exec os hashalgo limit [] p = Some p"
| "exec os hashalgo limit (a # as) p =
     (case pool_step os hashalgo limit a p of
        None \<Rightarrow> None
      | Some p' \<Rightarrow> exec os hashalgo limit as p')"

text \<open>\<open>eg.Wait\<close> returns when nothing is pending and nothing is running.\<close>

definition complete :: "pool \<Rightarrow> bool" where
  "complete p = (pending p = [] \<and> running p = [])"

text \<open>The first error in a list of return values, if there is one.\<close>

fun first_error :: "error option list \<Rightarrow> error option" where
  "first_error [] = None"
| "first_error (r # rs) = (case r of None \<Rightarrow> first_error rs | Some e \<Rightarrow> Some e)"

text \<open>
  What holds of the scheduler at every moment of a run on \<open>tasks\<close>: the pending
  tasks are those not yet started, the goroutines running and those that have returned
  are, between them, exactly the ones started, each once and each on its own task, and
  \<open>firstErr\<close> is the first error among the values returned so far.
\<close>

definition pool_inv :: "(string \<times> FileInfo) list \<Rightarrow> pool \<Rightarrow> bool" where
  "pool_inv tasks p =
     (pending p = drop (started p) tasks \<and> started p \<le> length tasks
      \<and> distinct (map fst (running p)) \<and> distinct (map fst (returned p))
      \<and> set (map fst (running p)) \<inter> set (map fst (returned p)) = {}
      \<and> set (map fst (running p)) \<union> set (map fst (returned p)) = {..<started p}
      \<and> (\<forall>g \<in> set (running p). fst (snd g) = tasks ! fst g)
      \<and> firstErr p = first_error (map snd (returned p)))"

text \<open>Two tasks for the two hard links \<open>/r/a.txt\<close> and \<open>/r/b.txt\<close> of inode 5.\<close>

definition race_tasks :: "(string \<times> FileInfo) list" where
  "race_tasks = [(''/r/a.txt'', file_info 5 2), (''/r/b.txt'', file_info 5 2)]"

text \<open>
  Two tasks whose \<open>FileInfo\<close> carry the same inode number although the files differ:
  \<open>/r/usb/c.txt\<close> lives on another file system, and \<open>worker\<close> keys the cache by
  \<open>stat.Ino\<close> alone. In the schedule both workers look the inode up before either stores.
\<close>

definition usb_tasks :: "(string \<times> FileInfo) list" where
  "usb_tasks = [(''/r/a.txt'', file_info 5 2), (''/r/usb/c.txt'', file_info 5 2)]"

definition race_start :: "action list" where
  "race_start = [Go, Go, Step 0, Step 1, Step 0, Step 0, Step 0]"

definition race_sched :: "action list" where
  "race_sched = race_start @ [Step 0, Step 0, Step 1, Step 1, Step 1, Step 1, Step 1]"

text \<open>An inode number for which some task of the run has a link count above one.\<close>

definition linked :: "(string \<times> FileInfo) list \<Rightarrow> 64 word \<Rightarrow> bool" where
  "linked tasks k =
     list_ex (\<lambda>task. case Sys (snd task) of None \<Rightarrow> False
                     | Some stat \<Rightarrow> Ino stat = k \<and> 1 < Nlink stat) tasks"

text \<open>
  Where task number \<open>i\<close> of a run stands: not yet handed to \<open>eg.Go\<close>, running at some
  point of \<open>worker\<close>, or finished with a return value.
\<close>

datatype phase = Waiting | Running wpc | Finished "error option"

definition phase_of :: "pool \<Rightarrow> nat \<Rightarrow> phase" where
  "phase_of p i =
     (case map_of (running p) i of
        Some (task, pc) \<Rightarrow> Running pc
      | None \<Rightarrow> (case map_of (returned p) i of Some r \<Rightarrow> Finished r | None \<Rightarrow> Waiting))"

text \<open>The phases of a task that reuses a cached digest.\<close>

fun reuse_path :: "phase \<Rightarrow> bool" where
  "reuse_path Waiting = True"
| "reuse_path (Running AtLoad) = True"
| "reuse_path (Running (AtReuse h)) = True"
| "reuse_path (Running (Returned None)) = True"
| "reuse_path (Finished None) = True"
| "reuse_path _ = False"

text \<open>How many scheduler actions a goroutine at a given point can still take.\<close>

fun rank :: "wpc \<Rightarrow> nat" where
  "rank AtLoad = 6"
| "rank AtHasher = 5"
| "rank (AtOpen k) = 4"
| "rank (AtStore hash) = 3"
| "rank (AtPrint hash) = 2"
| "rank (AtReuse h) = 2"
| "rank (Returned r) = 1"

definition potential :: "pool \<Rightarrow> nat" where
  "potential p = 7 * length (pending p) + sum_list (map (\<lambda>g. rank (snd (snd g))) (running p))"

section \<open>The run coordinator\<close>

text \<open>The flags, as \<open>flag.Parse\<close> leaves them.\<close>

record config =
  flag_dir :: string
  flag_poolsize :: int
  flag_follow_symlinks :: bool
  flag_hash :: string
  flag_exclude :: string

text \<open>
  What \<open>main\<close> meets beyond the flags: the operating system and hash libraries of the
  workers, \<open>regexp.Compile\<close> (a compiled pattern being its \<open>MatchString\<close>),
  \<open>filepath.Clean\<close>, \<open>os.Getwd\<close>, and the tree that \<open>filepath.Walk\<close> finds at a root.
\<close>

record world =
  sys :: env
  Compile :: "string \<Rightarrow> error + (string \<Rightarrow> bool)"
  Clean :: "string \<Rightarrow> string"
  Getwd :: "error + string"
  Tree :: "string \<Rightarrow> fstree"

definition IsAbs :: "string \<Rightarrow> bool" where
  "IsAbs path = (case path of [] \<Rightarrow> False | c # cs \<Rightarrow> c = CHR ''/'')"

text \<open>
  \<open>filepath.Abs\<close>: an absolute path is cleaned; any other is joined to the working
  directory, and \<open>Abs\<close> fails when \<open>os.Getwd\<close> does.
\<close>

definition Abs :: "world \<Rightarrow> string \<Rightarrow> error + string" where
  "Abs w path =
     (if IsAbs path then Inr (Clean w path)
      else case Getwd w of
             Inl err \<Rightarrow> Inl err
           | Inr wd \<Rightarrow> Inr (Clean w (wd @ ''/'' @ path)))"

text \<open>
  What a run leaves: the exit status, the result lines on standard output, and on
  standard error the lines of the walk, the lines of the workers and the last line of
  \<open>main\<close>. (The walk and the workers write to standard error concurrently; how their
  lines interleave is not modelled.)
\<close>

record outcome =
  exit_status :: int
  result_lines :: "string list"
  walk_lines :: "string list"
  worker_lines :: "string list"
  last_line :: string

text \<open>The compilation of the exclusion pattern at the start of \<open>main\<close>.\<close>

definition compilePattern :: "world \<Rightarrow> string \<Rightarrow> error + (string \<Rightarrow> bool) option" where
  "compilePattern w exclude =
     (if exclude \<noteq> [] then
        (case Compile w exclude of Inl err \<Rightarrow> Inl err | Inr re \<Rightarrow> Inr (Some re))
      else Inr None)"

text \<open>The walk of a run, and its scheduler after the actions \<open>sched\<close>.\<close>

definition run_walk :: "world \<Rightarrow> config \<Rightarrow> (string \<Rightarrow> bool) option \<Rightarrow> string \<Rightarrow> walk_state" where
  "run_walk w cfg excludePattern absPath =
     walkDirectory (sys w) absPath (Tree w absPath) (flag_follow_symlinks cfg) excludePattern"

definition run_pool :: "world \<Rightarrow> config \<Rightarrow> action list \<Rightarrow> walk_state \<Rightarrow> pool option" where
  "run_pool w cfg sched ws =
     exec (sys w) (flag_hash cfg) (limit_of (flag_poolsize cfg)) sched (pool_init (submitted ws))"

text \<open>
  \<open>main\<close>, for one interleaving \<open>sched\<close> of the walk's submissions and the workers'
  steps. The result is \<open>None\<close> when \<open>sched\<close> is not a run of the program to its end:
  some action of it cannot happen, or it stops before \<open>eg.Wait\<close> can return.
\<close>

definition main :: "world \<Rightarrow> config \<Rightarrow> action list \<Rightarrow> outcome option" where
  "main w cfg sched =
     (case compilePattern w (flag_exclude cfg) of
        Inl err \<Rightarrow>
          Some \<lparr>exit_status = 1, result_lines = [], walk_lines = [], worker_lines = [],
                last_line = ''invalid exclude pattern: '' @ errorString err @ ''\<newline>''\<rparr>
      | Inr excludePattern \<Rightarrow>
          (case Abs w (Clean w (flag_dir cfg)) of
             Inl err \<Rightarrow>
               Some \<lparr>exit_status = 1, result_lines = [], walk_lines = [], worker_lines = [],
                     last_line = ''Error: '' @ errorString err @ ''\<newline>''\<rparr>
           | Inr absPath \<Rightarrow>
               (let ws = run_walk w cfg excludePattern absPath
                in case run_pool w cfg sched ws of
                     None \<Rightarrow> None
                   | Some p \<Rightarrow>
                       if \<not> complete p then None
                       else (case firstErr p of
                               Some err \<Rightarrow>
                                 Some \<lparr>exit_status = 1, result_lines = stdout (mem p),
                                       walk_lines = diag ws, worker_lines = stderr (mem p),
                                       last_line = ''Error: '' @ errorString err @ ''\<newline>''\<rparr>
                             | None \<Rightarrow>
                                 Some \<lparr>exit_status = 0, result_lines = stdout (mem p),
                                       walk_lines = diag ws, worker_lines = stderr (mem p),
                                       last_line = ''Files processed: ''
                                         @ decimal (unat (filecount ws)) @ ''\<newline>''\<rparr>))))"

text \<open>
  Two settings for \<open>main\<close>. In \<open>demo_world\<close> the working directory is \<open>/r\<close>, a walk
  from \<open>/r/link\<close> meets the symbolic link alone and any other walk meets the sample tree;
  the paths used are clean already, and \<open>secret\<close> is the only pattern that compiles. In
  \<open>lost_world\<close> the working directory has been removed, so that \<open>os.Getwd\<close> fails.
\<close>

definition demo_world :: world where
  "demo_world = \<lparr>sys = demo_env,
     Compile = (\<lambda>s. if s = ''secret'' then Inr secret_pattern
                     else Inl (OSError (''error parsing regexp: '' @ s))),
     Clean = (\<lambda>p. p),
     Getwd = Inr ''/r'',
     Tree = (\<lambda>root. if root = ''/r/link'' then leaf (link_info 9) else demo_tree)\<rparr>"

definition lost_world :: world where
  "lost_world = demo_world\<lparr>Getwd := Inl (OSError ''getwd: no such file or directory'')\<rparr>"

definition default_flags :: config where
  "default_flags = \<lparr>flag_dir = ''.'', flag_poolsize = 8, flag_follow_symlinks = False,
                     flag_hash = ''sha256'', flag_exclude = []\<rparr>"



text \<open>
  A run of the two hard links with one slot: the first worker computes and stores
  (\<open>seq_start\<close>), then finishes, and the second worker runs (\<open>seq_rest\<close>).
\<close>

definition seq_start :: "action list" where
  "seq_start = [Go, Step 0, Step 0, Step 0, Step 0, Step 0]"

definition seq_rest :: "action list" where
  "seq_rest = [Step 0, Go, Step 1, Step 1, Step 1]"

definition seq_all :: "action list" where
  "seq_all = seq_start @ seq_rest @ [Go, Step 2, Step 2, Step 2, Step 2, Step 2, Step 2]"

text \<open>
  Two command lines: the sample tree with one worker at a time, and the symbolic link
  \<open>/r/link\<close> as the root with follow-symlinks.
\<close>

definition seq_flags :: config where
  "seq_flags = default_flags\<lparr>flag_dir := ''/r'', flag_poolsize := 1\<rparr>"

definition link_flags :: config where
  "link_flags = default_flags\<lparr>flag_dir := ''/r/link'', flag_follow_symlinks := True\<rparr>"

section \<open>Properties of the walk\<close>

lemmas mode_defs = ModeDir_def ModeSymlink_def ModeNamedPipe_def ModeType_def ModeDevice_def
  ModeSocket_def ModeCharDevice_def ModeIrregular_def IsDir_def IsRegular_def
lemmas demo_defs = file_info_def dir_info_def link_info_def fifo_info_def leaf_def demo_env_def
  demo_tree_def gone_node_def locked_node_def secret_node_def secret_pattern_def excluded_def

lemma and_or_zero: "(m AND (a OR b) = 0) = (m AND a = 0 \<and> m AND b = 0)" for m :: "'a::len word"
  by (simp add: bit.conj_disj_distrib or_eq_0_iff)

lemma symlink_not_regular: "m AND ModeSymlink \<noteq> 0 \<Longrightarrow> \<not> IsRegular m"
  unfolding IsRegular_def ModeType_def
  by (simp add: and_or_zero)

lemma walk_nondir: "\<not> IsDir info \<Longrightarrow> walk fn path info t s = fn path (Some info) None s"
  by (cases t) simp

lemma walk_names_step:
  "lstat_of t = Inr info \<Longrightarrow> walk fn (Join dir name) info t s = (None, s1)
   \<Longrightarrow> walk_names fn dir ((name, t) # rest) s = walk_names fn dir rest s1"
  by simp

lemma walk_names_lstat_error:
  "lstat_of t = Inl e \<Longrightarrow>
   walk_names (walkFn os f ex) dir ((name, t) # rest) s =
   walk_names (walkFn os f ex) dir rest
     (s\<lparr>diag := diag s @ [''unable to walk '' @ Join dir name @ '': '' @ errorString e @ ''\<newline>'']\<rparr>)"
  by (simp add: walkFn_def)

lemma walkFn_polite: "polite (walkFn os f ex)"
  unfolding polite_def
  by (auto simp: walkFn_def split: option.splits sum.splits prod.splits)

lemma walk_ret_polite:
  "polite fn \<Longrightarrow> fst (walk fn path info t s) = None
     \<or> (fst (walk fn path info t s) = Some SkipDir \<and> IsDir info)"
  and walk_names_nil: "polite fn \<Longrightarrow> fst (walk_names fn path ents s) = None"
proof (induction fn path info t s and fn path ents s rule: walk_walk_names.induct)
  case (1 fn path info l rd ents s)
  note pol = \<open>polite fn\<close>
  show ?case
  proof (cases "IsDir info")
    case False
    then show ?thesis using pol[unfolded polite_def, rule_format, of "Some info" None path s] by auto
  next
    case True
    obtain err1 s1 where r: "fn path (Some info) rd s = (err1, s1)" by fastforce
    show ?thesis
    proof (cases "rd \<noteq> None \<or> err1 \<noteq> None")
      case True
      then show ?thesis using pol[unfolded polite_def, rule_format, of "Some info" rd path s] r \<open>IsDir info\<close> by auto
    next
      case False
      then show ?thesis using "1.IH"[OF _ r[symmetric] _ pol] r \<open>IsDir info\<close> by simp
    qed
  qed
next
  case (2 fn path s)
  then show ?case by simp
next
  case (3 fn path name t rest s)
  note pol = \<open>polite fn\<close>
  show ?case
  proof (cases "lstat_of t")
    case (Inl e)
    obtain err s1 where r: "fn (Join path name) None (Some e) s = (err, s1)" by fastforce
    have "err = None" using pol[unfolded polite_def, rule_format, of None "Some e" "Join path name" s] r by auto
    then show ?thesis using Inl r "3.IH"(1)[OF Inl r[symmetric] _ pol] by simp
  next
    case (Inr fileInfo)
    obtain err s1 where r: "walk fn (Join path name) fileInfo t s = (err, s1)" by fastforce
    have e: "err = None \<or> (err = Some SkipDir \<and> IsDir fileInfo)"
      using "3.IH"(2)[OF Inr pol] r by simp
    then have n: "\<not> (err \<noteq> None \<and> (\<not> IsDir fileInfo \<or> err \<noteq> Some SkipDir))" by auto
    then show ?thesis using Inr r "3.IH"(3)[OF Inr r[symmetric] _ pol] by auto
  qed
qed

lemma walk_preserves:
  "(\<forall>path info err s. I s \<longrightarrow> I (snd (fn path info err s))) \<Longrightarrow> I s
     \<Longrightarrow> I (snd (walk fn path info t s))"
  and walk_names_preserves:
    "(\<forall>path info err s. I s \<longrightarrow> I (snd (fn path info err s))) \<Longrightarrow> I s
     \<Longrightarrow> I (snd (walk_names fn path ents s))"
proof (induction fn path info t s and fn path ents s rule: walk_walk_names.induct)
  case (1 fn path info l rd ents s)
  note fnI = "1.prems"(1) and i = "1.prems"(2)
  show ?case
  proof (cases "IsDir info")
    case False
    then show ?thesis using fnI i by simp
  next
    case True
    obtain err1 s1 where r: "fn path (Some info) rd s = (err1, s1)" by fastforce
    have i1: "I s1" using fnI[rule_format, OF i, of path "Some info" rd] r by simp
    show ?thesis
    proof (cases "rd \<noteq> None \<or> err1 \<noteq> None")
      case True
      then show ?thesis using r i1 \<open>IsDir info\<close> by auto
    next
      case False
      then show ?thesis using "1.IH"[OF _ r[symmetric] _ fnI i1] r \<open>IsDir info\<close> by simp
    qed
  qed
next
  case (2 fn path s)
  then show ?case by simp
next
  case (3 fn path name t rest s)
  note fnI = "3.prems"(1) and i = "3.prems"(2)
  show ?case
  proof (cases "lstat_of t")
    case (Inl e)
    obtain err s1 where r: "fn (Join path name) None (Some e) s = (err, s1)" by fastforce
    have i1: "I s1" using fnI[rule_format, OF i, of "Join path name" None "Some e"] r by simp
    show ?thesis
    proof (cases "err \<noteq> None \<and> err \<noteq> Some SkipDir")
      case True
      then show ?thesis using Inl r i1 by auto
    next
      case False
      then show ?thesis using Inl r "3.IH"(1)[OF Inl r[symmetric] _ fnI i1] by auto
    qed
  next
    case (Inr fileInfo)
    obtain err s1 where r: "walk fn (Join path name) fileInfo t s = (err, s1)" by fastforce
    have i1: "I s1" using "3.IH"(2)[OF Inr fnI i] r by simp
    show ?thesis
    proof (cases "err \<noteq> None \<and> (\<not> IsDir fileInfo \<or> err \<noteq> Some SkipDir)")
      case True
      then show ?thesis using Inr r i1 by auto
    next
      case False
      then show ?thesis using Inr r "3.IH"(3)[OF Inr r[symmetric] _ fnI i1] by auto
    qed
  qed
qed

lemma Walk_preserves:
  assumes fnI: "\<forall>path info err s. I s \<longrightarrow> I (snd (fn path info err s))" and i: "I s"
  shows "I (snd (Walk fn root t s))"
proof (cases "lstat_of t")
  case (Inl e)
  obtain err s1 where r: "fn root None (Some e) s = (err, s1)" by fastforce
  have "I s1" using fnI[rule_format, OF i, of root None "Some e"] r by simp
  then show ?thesis using Inl r by (simp add: Walk_def)
next
  case (Inr info)
  obtain err s1 where r: "walk fn root info t s = (err, s1)" by fastforce
  have "I s1" using walk_preserves[OF fnI i, of root info t] r by simp
  then show ?thesis using Inr r by (simp add: Walk_def)
qed

lemma Walk_nil: "polite fn \<Longrightarrow> fst (Walk fn root t s) = None"
proof -
  assume pol: "polite fn"
  show ?thesis
  proof (cases "lstat_of t")
    case (Inl e)
    then show ?thesis using pol[unfolded polite_def, rule_format, of None "Some e" root s]
      by (auto simp: Walk_def split: prod.splits)
  next
    case (Inr info)
    then show ?thesis using walk_ret_polite[OF pol, of root info t s]
      by (auto simp: Walk_def split: prod.splits)
  qed
qed

text \<open>
  C10. With follow-symlinks enabled, an entry that is neither a directory, nor regular, nor
  a symbolic link (a named pipe, a socket, a device) is skipped without a trace: the
  walk function returns nil and leaves the counter, the submissions and the diagnostics
  as they were. The notice \<open>skipping non-regular file\<close> is written only with
  follow-symlinks disabled. (\<open>checkSymlink\<close> asks \<open>Lstat\<close> again; the entry is assumed
  unchanged since the walk looked at it.)
\<close>

theorem special_file_skipped_silently:
  assumes "\<not> IsDir info" and "\<not> IsRegular (Mode info)" and "Mode info AND ModeSymlink = 0"
    and "Lstat os path = Inr info"
  shows "walk (walkFn os True ex) path info t s = (None, s)
       \<and> (\<not> excluded ex path \<longrightarrow>
            walk (walkFn os False ex) path info t s =
              (None, s\<lparr>diag := diag s @ [''skipping non-regular file '' @ path @ ''\<newline>'']\<rparr>))"
  using assms by (simp add: walk_nondir walkFn_def checkSymlink_def)

theorem special_file_skipped_silently_witness:
  "\<not> IsDir (fifo_info 10) \<and> \<not> IsRegular (Mode (fifo_info 10))
   \<and> Mode (fifo_info 10) AND ModeSymlink = 0
   \<and> Lstat demo_env ''/r/pipe'' = Inr (fifo_info 10)
   \<and> walk (walkFn demo_env True None) ''/r/pipe'' (fifo_info 10) (leaf (fifo_info 10)) walk_init
       = (None, walk_init)
   \<and> walk (walkFn demo_env False None) ''/r/pipe'' (fifo_info 10) (leaf (fifo_info 10)) walk_init
       = (None, \<lparr>filecount = 0, submitted = [], diag = [''skipping non-regular file /r/pipe\<newline>'']\<rparr>)"
proof -
  have h: "\<not> IsDir (fifo_info 10)" "\<not> IsRegular (Mode (fifo_info 10))"
    "Mode (fifo_info 10) AND ModeSymlink = 0" "Lstat demo_env ''/r/pipe'' = Inr (fifo_info 10)"
    by (simp_all add: mode_defs demo_defs)
  have n: "\<not> excluded None ''/r/pipe''" by (simp add: excluded_def)
  show ?thesis
    using h n special_file_skipped_silently[OF h, of None "leaf (fifo_info 10)" walk_init]
    by (simp add: walk_init_def)
qed

text \<open>
  C4. A symbolic-link entry that the walk reaches (its path not excluded, and \<open>Lstat\<close>
  answering for it as it did for the walk). With follow-symlinks disabled the walk writes
  the skip notice and submits nothing. With follow-symlinks enabled and \<open>Readlink\<close>
  succeeding, the target is what is submitted, together with the \<open>FileInfo\<close> of the
  link itself, so that the worker's cache lookup is keyed by the link's own inode; when
  \<open>Readlink\<close> fails the error is written and the walk goes on with the next name.
\<close>

theorem symlink_entry_policy:
  assumes sym: "Mode info AND ModeSymlink \<noteq> 0" and nd: "\<not> IsDir info"
    and ne: "\<not> excluded ex path" and ls: "Lstat os path = Inr info"
  shows "walk (walkFn os False ex) path info t s =
           (None, s\<lparr>diag := diag s @ [''skipping non-regular file '' @ path @ ''\<newline>'']\<rparr>)
       \<and> (Readlink os path = Inr target \<longrightarrow>
            walk (walkFn os True ex) path info t s =
              (None, s\<lparr>filecount := filecount s + 1, submitted := submitted s @ [(target, info)]\<rparr>))
       \<and> (Sys info = Some stat \<and> Load (hardLinks st) (Ino stat) = Some h \<longrightarrow>
            worker os target info hashalgo st =
              (None, st\<lparr>stdout := stdout st @ [reusedLine h target]\<rparr>))
       \<and> (Readlink os path = Inl e \<longrightarrow>
            walk (walkFn os True ex) path info t s =
              (None, s\<lparr>diag := diag s @ [''error reading symlink '' @ path @ '': ''
                                           @ errorString e @ ''\<newline>'']\<rparr>))
       \<and> (Readlink os path = Inl e \<and> lstat_of t = Inr info \<and> path = Join dir name \<longrightarrow>
            walk_names (walkFn os True ex) dir ((name, t) # rest) s =
            walk_names (walkFn os True ex) dir rest
              (s\<lparr>diag := diag s @ [''error reading symlink '' @ path @ '': ''
                                    @ errorString e @ ''\<newline>'']\<rparr>))"
proof -
  have nr: "\<not> IsRegular (Mode info)" using sym by (rule symlink_not_regular)
  have a: "walk (walkFn os False ex) path info t s =
           (None, s\<lparr>diag := diag s @ [''skipping non-regular file '' @ path @ ''\<newline>'']\<rparr>)"
    using nd ne nr by (simp add: walk_nondir walkFn_def)
  have b: "Readlink os path = Inr target \<Longrightarrow>
            walk (walkFn os True ex) path info t s =
              (None, s\<lparr>filecount := filecount s + 1, submitted := submitted s @ [(target, info)]\<rparr>)"
    using nd ne nr sym ls by (simp add: walk_nondir walkFn_def checkSymlink_def)
  have c: "Sys info = Some stat \<and> Load (hardLinks st) (Ino stat) = Some h \<Longrightarrow>
            worker os target info hashalgo st =
              (None, st\<lparr>stdout := stdout st @ [reusedLine h target]\<rparr>)"
    by (simp add: worker_def)
  have d: "Readlink os path = Inl e \<Longrightarrow>
            walk (walkFn os True ex) path info t s =
              (None, s\<lparr>diag := diag s @ [''error reading symlink '' @ path @ '': ''
                                           @ errorString e @ ''\<newline>'']\<rparr>)"
    using nd ne nr sym ls by (simp add: walk_nondir walkFn_def checkSymlink_def)
  have e: "Readlink os path = Inl e \<and> lstat_of t = Inr info \<and> path = Join dir name \<Longrightarrow>
            walk_names (walkFn os True ex) dir ((name, t) # rest) s =
            walk_names (walkFn os True ex) dir rest
              (s\<lparr>diag := diag s @ [''error reading symlink '' @ path @ '': ''
                                    @ errorString e @ ''\<newline>'']\<rparr>)"
    using d walk_names_step[of t info "walkFn os True ex" dir name s] by blast
  show ?thesis using a b c d e by blast
qed

theorem symlink_entry_policy_witness:
  "Mode (link_info 9) AND ModeSymlink \<noteq> 0 \<and> \<not> IsDir (link_info 9)
   \<and> \<not> excluded (Some secret_pattern) ''/r/link''
   \<and> Lstat demo_env ''/r/link'' = Inr (link_info 9)
   \<and> Readlink demo_env ''/r/link'' = Inr ''a.txt''
   \<and> walk (walkFn demo_env False (Some secret_pattern)) ''/r/link'' (link_info 9) (leaf (link_info 9)) walk_init
       = (None, \<lparr>filecount = 0, submitted = [], diag = [''skipping non-regular file /r/link\<newline>'']\<rparr>)
   \<and> walk (walkFn demo_env True (Some secret_pattern)) ''/r/link'' (link_info 9) (leaf (link_info 9)) walk_init
       = (None, \<lparr>filecount = 1, submitted = [(''a.txt'', link_info 9)], diag = []\<rparr>)
   \<and> worker demo_env ''a.txt'' (link_info 9) ''sha256'' (st0\<lparr>hardLinks := [9 \<mapsto> ''6968'']\<rparr>)
       = (None, st0\<lparr>hardLinks := [9 \<mapsto> ''6968''], stdout := [''6968  a.txt  *\<newline>'']\<rparr>)
   \<and> Readlink demo_env ''/r/stale'' = Inl (OSError ''readlink /r/stale: input/output error'')
   \<and> walk (walkFn demo_env True (Some secret_pattern)) ''/r/stale'' (link_info 13) (leaf (link_info 13)) walk_init
       = (None, \<lparr>filecount = 0, submitted = [],
            diag = [''error reading symlink /r/stale: readlink /r/stale: input/output error\<newline>'']\<rparr>)"
proof -
  have h: "Mode (link_info 9) AND ModeSymlink \<noteq> 0" "\<not> IsDir (link_info 9)"
    "\<not> excluded (Some secret_pattern) ''/r/link''" "Lstat demo_env ''/r/link'' = Inr (link_info 9)"
    by (simp_all add: mode_defs demo_defs)
  have h2: "Mode (link_info 13) AND ModeSymlink \<noteq> 0" "\<not> IsDir (link_info 13)"
    "\<not> excluded (Some secret_pattern) ''/r/stale''" "Lstat demo_env ''/r/stale'' = Inr (link_info 13)"
    by (simp_all add: mode_defs demo_defs)
  have r: "Readlink demo_env ''/r/link'' = Inr ''a.txt''"
    "Readlink demo_env ''/r/stale'' = Inl (OSError ''readlink /r/stale: input/output error'')"
    by (simp_all add: demo_defs)
  have sy: "Sys (link_info 9) = Some \<lparr>Ino = 9, Nlink = 1\<rparr>" by (simp add: link_info_def)
  show ?thesis
    using h r
      symlink_entry_policy[OF h, of "leaf (link_info 9)" walk_init "''a.txt''" "\<lparr>Ino = 9, Nlink = 1\<rparr>"
        "st0\<lparr>hardLinks := [9 \<mapsto> ''6968'']\<rparr>" "''6968''" "''sha256''"]
      symlink_entry_policy[OF h2, of "leaf (link_info 13)" walk_init _ _ _ _ _
        "OSError ''readlink /r/stale: input/output error''"]
    by (simp add: walk_init_def sy Load_def st0_def reusedLine_def)
qed

text \<open>
  C9. With follow-symlinks enabled, what is submitted for a symbolic link is the string
  \<open>Readlink\<close> returned, as it is: the worker hands exactly that string to \<open>os.Open\<close>,
  and not the target joined to the directory of the link. A relative target is therefore
  opened as the operating system resolves a relative path. (The entry is taken as the
  walk reaches it: not excluded, unchanged since the walk's \<open>Lstat\<close>, and with its
  inode not in the cache, so that the worker gets as far as opening.)
\<close>

theorem symlink_target_literal:
  assumes lt: "lstat_of t = Inr info" and sym: "Mode info AND ModeSymlink \<noteq> 0"
    and nd: "\<not> IsDir info" and ne: "\<not> excluded ex (Join dir name)"
    and ls: "Lstat os (Join dir name) = Inr info"
    and rl: "Readlink os (Join dir name) = Inr target"
    and miss: "(case Sys info of None \<Rightarrow> None | Some stat \<Rightarrow> Load (hardLinks st) (Ino stat)) = None"
  shows "walk_names (walkFn os True ex) dir ((name, t) # rest) s =
         walk_names (walkFn os True ex) dir rest
           (s\<lparr>filecount := filecount s + 1, submitted := submitted s @ [(target, info)]\<rparr>)
       \<and> opened (snd (worker os target info hashalgo st)) = opened st @ [target]
       \<and> opened (snd (worker os target info hashalgo st)) \<noteq> opened st @ [Join dir target]"
proof -
  have nr: "\<not> IsRegular (Mode info)" using sym by (rule symlink_not_regular)
  have w: "walk (walkFn os True ex) (Join dir name) info t s =
        (None, s\<lparr>filecount := filecount s + 1, submitted := submitted s @ [(target, info)]\<rparr>)"
    using nd ne nr sym ls rl by (simp add: walk_nondir walkFn_def checkSymlink_def)
  have a: "walk_names (walkFn os True ex) dir ((name, t) # rest) s =
         walk_names (walkFn os True ex) dir rest
           (s\<lparr>filecount := filecount s + 1, submitted := submitted s @ [(target, info)]\<rparr>)"
    using walk_names_step[OF lt w] .
  have b: "opened (snd (worker os target info hashalgo st)) = opened st @ [target]"
    using miss by (simp add: worker_def Let_def split: prod.splits sum.splits option.splits)
  have "length (Join dir target) \<noteq> length target" by (simp add: Join_def)
  then have c: "target \<noteq> Join dir target" by auto
  show ?thesis using a b c by simp
qed

theorem symlink_target_literal_witness:
  "lstat_of (leaf (link_info 9)) = Inr (link_info 9)
   \<and> Mode (link_info 9) AND ModeSymlink \<noteq> 0 \<and> \<not> IsDir (link_info 9)
   \<and> \<not> excluded None (Join ''/r'' ''link'')
   \<and> Lstat demo_env (Join ''/r'' ''link'') = Inr (link_info 9)
   \<and> Readlink demo_env (Join ''/r'' ''link'') = Inr ''a.txt''
   \<and> walk_names (walkFn demo_env True None) ''/r'' [(''link'', leaf (link_info 9))] walk_init
       = (None, \<lparr>filecount = 1, submitted = [(''a.txt'', link_info 9)], diag = []\<rparr>)
   \<and> opened (snd (worker demo_env ''a.txt'' (link_info 9) ''sha256'' st0)) = [''a.txt'']
   \<and> opened (snd (worker demo_env ''a.txt'' (link_info 9) ''sha256'' st0)) \<noteq> [''/r/a.txt'']
   \<and> worker demo_env ''a.txt'' (link_info 9) ''sha256'' st0
       = (Some (OSError ''open a.txt: no such file or directory''), st0\<lparr>opened := [''a.txt'']\<rparr>)"
proof -
  have h: "lstat_of (leaf (link_info 9)) = Inr (link_info 9)"
    "Mode (link_info 9) AND ModeSymlink \<noteq> 0" "\<not> IsDir (link_info 9)"
    "\<not> excluded None (Join ''/r'' ''link'')"
    "Lstat demo_env (Join ''/r'' ''link'') = Inr (link_info 9)"
    "Readlink demo_env (Join ''/r'' ''link'') = Inr ''a.txt''"
    "(case Sys (link_info 9) of None \<Rightarrow> None | Some stat \<Rightarrow> Load (hardLinks st0) (Ino stat)) = None"
    by (simp_all add: mode_defs demo_defs Join_def st0_def Load_def)
  have w: "worker demo_env ''a.txt'' (link_info 9) ''sha256'' st0
       = (Some (OSError ''open a.txt: no such file or directory''), st0\<lparr>opened := [''a.txt'']\<rparr>)"
    by (simp add: worker_def demo_defs st0_def Load_def newHasher_def)
  show ?thesis
    using h(1-6) w symlink_target_literal[OF h, of "[]" walk_init "''sha256''"]
    by (simp add: walk_init_def st0_def Join_def)
qed

text \<open>
  C7. An error met while walking is written to standard error with its path and goes no
  further. When \<open>Lstat\<close> fails for an entry, or a directory cannot be listed, the walk
  writes \<open>unable to walk\<close>, visits nothing below that path and goes on with the names
  that follow it; the same holds at the root. Whatever the tree, \<open>filepath.Walk\<close>
  returns nil: no error of the walk stops it or reaches its result.
\<close>

theorem walk_errors_absorbed:
  "(lstat_of t = Inl e \<longrightarrow>
      walk_names (walkFn os f ex) dir ((name, t) # rest) s =
      walk_names (walkFn os f ex) dir rest
        (s\<lparr>diag := diag s @ [''unable to walk '' @ Join dir name @ '': '' @ errorString e @ ''\<newline>'']\<rparr>))
   \<and> (lstat_of t = Inr info \<and> IsDir info \<and> readdir_err t = Some e \<longrightarrow>
      walk_names (walkFn os f ex) dir ((name, t) # rest) s =
      walk_names (walkFn os f ex) dir rest
        (s\<lparr>diag := diag s @ [''unable to walk '' @ Join dir name @ '': '' @ errorString e @ ''\<newline>'']\<rparr>))
   \<and> (lstat_of t = Inl e \<longrightarrow>
      Walk (walkFn os f ex) dir t s =
        (None, s\<lparr>diag := diag s @ [''unable to walk '' @ dir @ '': '' @ errorString e @ ''\<newline>'']\<rparr>))
   \<and> (lstat_of t = Inr info \<and> IsDir info \<and> readdir_err t = Some e \<longrightarrow>
      Walk (walkFn os f ex) dir t s =
        (None, s\<lparr>diag := diag s @ [''unable to walk '' @ dir @ '': '' @ errorString e @ ''\<newline>'']\<rparr>))
   \<and> fst (walk_names (walkFn os f ex) dir ents s) = None
   \<and> fst (Walk (walkFn os f ex) dir t s) = None"
proof -
  have rd: "walk (walkFn os f ex) p info t s =
        (None, s\<lparr>diag := diag s @ [''unable to walk '' @ p @ '': '' @ errorString e @ ''\<newline>'']\<rparr>)"
    if "IsDir info" "readdir_err t = Some e" for p
    using that by (cases t) (simp add: walkFn_def)
  have a: "lstat_of t = Inl e \<longrightarrow>
      walk_names (walkFn os f ex) dir ((name, t) # rest) s =
      walk_names (walkFn os f ex) dir rest
        (s\<lparr>diag := diag s @ [''unable to walk '' @ Join dir name @ '': '' @ errorString e @ ''\<newline>'']\<rparr>)"
    using walk_names_lstat_error[of t e os f ex dir name rest s] by blast
  have b: "lstat_of t = Inr info \<and> IsDir info \<and> readdir_err t = Some e \<longrightarrow>
      walk_names (walkFn os f ex) dir ((name, t) # rest) s =
      walk_names (walkFn os f ex) dir rest
        (s\<lparr>diag := diag s @ [''unable to walk '' @ Join dir name @ '': '' @ errorString e @ ''\<newline>'']\<rparr>)"
    using rd[of "Join dir name"] walk_names_step[of t info "walkFn os f ex" dir name s] by blast
  have c: "lstat_of t = Inl e \<longrightarrow>
      Walk (walkFn os f ex) dir t s =
        (None, s\<lparr>diag := diag s @ [''unable to walk '' @ dir @ '': '' @ errorString e @ ''\<newline>'']\<rparr>)"
    by (simp add: Walk_def walkFn_def)
  have d: "lstat_of t = Inr info \<and> IsDir info \<and> readdir_err t = Some e \<longrightarrow>
      Walk (walkFn os f ex) dir t s =
        (None, s\<lparr>diag := diag s @ [''unable to walk '' @ dir @ '': '' @ errorString e @ ''\<newline>'']\<rparr>)"
    using rd[of dir] by (simp add: Walk_def)
  have e: "fst (walk_names (walkFn os f ex) dir ents s) = None"
    by (rule walk_names_nil[OF walkFn_polite])
  have g: "fst (Walk (walkFn os f ex) dir t s) = None"
    by (rule Walk_nil[OF walkFn_polite])
  show ?thesis using a b c d e g by blast
qed

theorem walk_errors_absorbed_witness:
  "lstat_of gone_node = Inl (OSError ''lstat /r/gone: no such file or directory'')
   \<and> walk_names (walkFn demo_env False None) ''/r'' [(''gone'', gone_node), (''x.txt'', leaf (file_info 11 1))] walk_init
       = (None, \<lparr>filecount = 1, submitted = [(''/r/x.txt'', file_info 11 1)],
                 diag = [''unable to walk /r/gone: lstat /r/gone: no such file or directory\<newline>'']\<rparr>)
   \<and> lstat_of locked_node = Inr (dir_info 3) \<and> IsDir (dir_info 3)
   \<and> readdir_err locked_node = Some (OSError ''open /r/locked: permission denied'')
   \<and> walk_names (walkFn demo_env False None) ''/r'' [(''locked'', locked_node), (''y.txt'', leaf (file_info 11 1))] walk_init
       = (None, \<lparr>filecount = 1, submitted = [(''/r/y.txt'', file_info 11 1)],
                 diag = [''unable to walk /r/locked: open /r/locked: permission denied\<newline>'']\<rparr>)
   \<and> Walk (walkFn demo_env False None) ''/r/gone'' gone_node walk_init
       = (None, \<lparr>filecount = 0, submitted = [],
                 diag = [''unable to walk /r/gone: lstat /r/gone: no such file or directory\<newline>'']\<rparr>)
   \<and> fst (Walk (walkFn demo_env False None) ''/r'' demo_tree walk_init) = None"
proof -
  have g: "lstat_of gone_node = Inl (OSError ''lstat /r/gone: no such file or directory'')"
    by (simp add: gone_node_def)
  have l: "lstat_of locked_node = Inr (dir_info 3)" "IsDir (dir_info 3)"
    "readdir_err locked_node = Some (OSError ''open /r/locked: permission denied'')"
    by (simp_all add: locked_node_def dir_info_def mode_defs)
  have x: "walk_names (walkFn demo_env False None) ''/r'' [(n, leaf (file_info 11 1))] s
       = (None, s\<lparr>filecount := filecount s + 1, submitted := submitted s @ [(Join ''/r'' n, file_info 11 1)]\<rparr>)"
    for n s
    by (simp add: leaf_def file_info_def walkFn_def mode_defs excluded_def)
  show ?thesis
    using g l x
      walk_errors_absorbed[where t = gone_node and e = "OSError ''lstat /r/gone: no such file or directory''"
        and os = demo_env and f = False and ex = None and dir = "''/r''" and name = "''gone''"
        and rest = "[(''x.txt'', leaf (file_info 11 1))]" and s = walk_init]
      walk_errors_absorbed[where t = locked_node and e = "OSError ''open /r/locked: permission denied''"
        and info = "dir_info 3"
        and os = demo_env and f = False and ex = None and dir = "''/r''" and name = "''locked''"
        and rest = "[(''y.txt'', leaf (file_info 11 1))]" and s = walk_init]
      walk_errors_absorbed[where t = gone_node and e = "OSError ''lstat /r/gone: no such file or directory''"
        and os = demo_env and f = False and ex = None and dir = "''/r/gone''" and s = walk_init]
      walk_errors_absorbed[where t = demo_tree and os = demo_env and f = False and ex = None
        and dir = "''/r''" and s = walk_init]
    by (simp add: walk_init_def Join_def)
qed

lemma walkFn_vetted:
  "\<forall>path info err s. (\<forall>task \<in> set (submitted s). vetted os f ex task)
     \<longrightarrow> (\<forall>task \<in> set (submitted (snd (walkFn os f ex path info err s))). vetted os f ex task)"
  by (auto simp: walkFn_def vetted_def split: option.splits sum.splits prod.splits)

lemma walkDirectory_vetted:
  "\<forall>task \<in> set (submitted (walkDirectory os root tr f ex)). vetted os f ex task"
  unfolding walkDirectory_def
  by (rule Walk_preserves[where I = "\<lambda>s. \<forall>task \<in> set (submitted s). vetted os f ex task",
        OF walkFn_vetted]) (simp add: walk_init_def)

lemma walkFn_no_pattern: "walkFn os f None = walkFn os f (Some (\<lambda>_. False))"
  by (intro ext) (simp add: walkFn_def excluded_def cong: option.case_cong if_cong)

lemma walk_excluded_dir:
  "excluded ex p \<Longrightarrow> IsDir info \<Longrightarrow>
   \<exists>r. (r = None \<or> r = Some SkipDir) \<and> walk (walkFn os f ex) p info t s =
     (r, case readdir_err t of None \<Rightarrow> s
         | Some e \<Rightarrow> s\<lparr>diag := diag s @ [''unable to walk '' @ p @ '': '' @ errorString e @ ''\<newline>'']\<rparr>)"
  by (cases t) (auto simp: walkFn_def split: option.splits)

text \<open>
  C3, as the code has it. An entry whose own path matches the exclusion pattern gets no
  work: a matching directory is left at once (nothing below it is visited, and the walk
  goes on with the names after it), a matching entry that is not a directory is passed
  over and the walk goes on with its siblings, and a matching root submits nothing. Every
  path the walk submits either does not match the pattern or, with follow-symlinks, is
  the target of a symbolic link whose own path does not match: the target itself is never
  tested. Without a pattern no path is excluded, and the walk is the one a pattern
  matching nothing would give.
\<close>

theorem exclusion_of_visited_paths:
  "(excluded ex (Join dir name) \<and> lstat_of t = Inr info \<and> IsDir info \<longrightarrow>
      walk_names (walkFn os f ex) dir ((name, t) # rest) s =
      walk_names (walkFn os f ex) dir rest
        (case readdir_err t of None \<Rightarrow> s
         | Some e \<Rightarrow> s\<lparr>diag := diag s @ [''unable to walk '' @ Join dir name @ '': ''
                                          @ errorString e @ ''\<newline>'']\<rparr>))
   \<and> (excluded ex (Join dir name) \<and> lstat_of t = Inr info \<and> \<not> IsDir info \<longrightarrow>
      walk_names (walkFn os f ex) dir ((name, t) # rest) s =
      walk_names (walkFn os f ex) dir rest s)
   \<and> (excluded ex root \<and> lstat_of tr = Inr info \<longrightarrow> submitted (walkDirectory os root tr f ex) = [])
   \<and> (\<forall>task \<in> set (submitted (walkDirectory os root tr f ex)). vetted os f ex task)
   \<and> \<not> excluded None p
   \<and> walkDirectory os root tr f None = walkDirectory os root tr f (Some (\<lambda>_. False))"
proof -
  have a: "excluded ex (Join dir name) \<and> lstat_of t = Inr info \<and> IsDir info \<longrightarrow>
      walk_names (walkFn os f ex) dir ((name, t) # rest) s =
      walk_names (walkFn os f ex) dir rest
        (case readdir_err t of None \<Rightarrow> s
         | Some e \<Rightarrow> s\<lparr>diag := diag s @ [''unable to walk '' @ Join dir name @ '': ''
                                          @ errorString e @ ''\<newline>'']\<rparr>)"
    using walk_excluded_dir[of ex "Join dir name" info os f t s] by auto
  have b: "excluded ex (Join dir name) \<and> lstat_of t = Inr info \<and> \<not> IsDir info \<longrightarrow>
      walk_names (walkFn os f ex) dir ((name, t) # rest) s =
      walk_names (walkFn os f ex) dir rest s"
    by (simp add: walk_nondir walkFn_def)
  have c: "excluded ex root \<and> lstat_of tr = Inr info \<longrightarrow> submitted (walkDirectory os root tr f ex) = []"
  proof (cases "IsDir info")
    case True
    then show ?thesis
      using walk_excluded_dir[of ex root info os f tr walk_init]
      by (auto simp: walkDirectory_def Walk_def walk_init_def split: option.splits)
  next
    case False
    then show ?thesis
      by (simp add: walkDirectory_def Walk_def walk_init_def walk_nondir walkFn_def)
  qed
  have d: "\<not> excluded None p" by (simp add: excluded_def)
  have e: "walkDirectory os root tr f None = walkDirectory os root tr f (Some (\<lambda>_. False))"
    by (simp add: walkDirectory_def walkFn_no_pattern)
  show ?thesis using a b c d e walkDirectory_vetted[of os root tr f ex] by blast
qed

theorem exclusion_of_visited_paths_witness:
  "excluded (Some secret_pattern) (Join ''/r'' ''secret'')
   \<and> lstat_of secret_node = Inr (dir_info 4) \<and> IsDir (dir_info 4)
   \<and> walk_names (walkFn demo_env False (Some secret_pattern)) ''/r''
         [(''secret'', secret_node), (''z.txt'', leaf (file_info 11 1))] walk_init
       = (None, \<lparr>filecount = 1, submitted = [(''/r/z.txt'', file_info 11 1)], diag = []\<rparr>)
   \<and> excluded (Some secret_pattern) (Join ''/r'' ''secret.txt'')
   \<and> \<not> IsDir (file_info 12 1)
   \<and> walk_names (walkFn demo_env False (Some secret_pattern)) ''/r''
         [(''secret.txt'', leaf (file_info 12 1)), (''z.txt'', leaf (file_info 11 1))] walk_init
       = (None, \<lparr>filecount = 1, submitted = [(''/r/z.txt'', file_info 11 1)], diag = []\<rparr>)
   \<and> submitted (walkDirectory demo_env ''/r/secret'' secret_node False (Some secret_pattern)) = []
   \<and> submitted (walkDirectory demo_env ''/r'' demo_tree False (Some secret_pattern))
       = [(''/r/a.txt'', file_info 5 2), (''/r/b.txt'', file_info 5 2)]
   \<and> submitted (walkDirectory demo_env ''/r'' demo_tree False None)
       = [(''/r/a.txt'', file_info 5 2), (''/r/b.txt'', file_info 5 2),
          (''/r/secret/k.txt'', file_info 12 1)]"
proof -
  have h: "excluded (Some secret_pattern) (Join ''/r'' ''secret'')"
    "lstat_of secret_node = Inr (dir_info 4)" "IsDir (dir_info 4)"
    "excluded (Some secret_pattern) (Join ''/r'' ''secret.txt'')"
    "lstat_of (leaf (file_info 12 1)) = Inr (file_info 12 1)" "\<not> IsDir (file_info 12 1)"
    "excluded (Some secret_pattern) ''/r/secret''" "readdir_err secret_node = None"
    by (simp_all add: demo_defs mode_defs Join_def)
  have x: "walk_names (walkFn demo_env False (Some secret_pattern)) ''/r'' [(''z.txt'', leaf (file_info 11 1))] walk_init
       = (None, \<lparr>filecount = 1, submitted = [(''/r/z.txt'', file_info 11 1)], diag = []\<rparr>)"
    by (simp add: demo_defs walkFn_def mode_defs Join_def walk_init_def)
  have y: "submitted (walkDirectory demo_env ''/r'' demo_tree False (Some secret_pattern))
       = [(''/r/a.txt'', file_info 5 2), (''/r/b.txt'', file_info 5 2)]"
    "submitted (walkDirectory demo_env ''/r'' demo_tree False (Some (\<lambda>_. False)))
       = [(''/r/a.txt'', file_info 5 2), (''/r/b.txt'', file_info 5 2),
          (''/r/secret/k.txt'', file_info 12 1)]"
    by (simp_all add: walkDirectory_def Walk_def demo_defs walk_init_def walkFn_def mode_defs Join_def)
  show ?thesis
    using h x y
      exclusion_of_visited_paths[where ex = "Some secret_pattern" and dir = "''/r''"
        and name = "''secret''" and t = secret_node and info = "dir_info 4" and os = demo_env
        and f = False and rest = "[(''z.txt'', leaf (file_info 11 1))]" and s = walk_init
        and root = "''/r/secret''" and tr = secret_node]
      exclusion_of_visited_paths[where ex = "Some secret_pattern" and dir = "''/r''"
        and name = "''secret.txt''" and t = "leaf (file_info 12 1)" and info = "file_info 12 1"
        and os = demo_env
        and f = False and rest = "[(''z.txt'', leaf (file_info 11 1))]" and s = walk_init
        and root = "''/r''" and tr = demo_tree]
    by simp
qed

text \<open>
  The claim as first stated fails where a symbolic link outside \<open>/r/secret\<close> points into
  it: with the pattern matching every path under \<open>/r/secret\<close> and follow-symlinks
  enabled, the matching path \<open>/r/secret/k.txt\<close> is submitted (for the link \<open>/r/peek\<close>),
  and the worker opens it and prints its digest.
\<close>

theorem excluded_target_submitted:
  "excluded (Some secret_pattern) ''/r/secret/k.txt''
   \<and> submitted (walkDirectory demo_env ''/r'' demo_tree True (Some secret_pattern))
       = [(''/r/a.txt'', file_info 5 2), (''/r/b.txt'', file_info 5 2), (''a.txt'', link_info 9),
          (''/r/secret/k.txt'', link_info 14)]
   \<and> worker demo_env ''/r/secret/k.txt'' (link_info 14) ''sha256'' st0
       = (None, st0\<lparr>stdout := [''79656b  /r/secret/k.txt  -\<newline>''], opened := [''/r/secret/k.txt'']\<rparr>)"
  by (simp add: walkDirectory_def Walk_def demo_defs walk_init_def walkFn_def mode_defs Join_def
      checkSymlink_def worker_def Load_def newHasher_def st0_def computedLine_def hexdigit_def)

section \<open>Properties of the scheduler\<close>

text \<open>
  The pieces, run in a row from the lookup, are \<open>worker\<close>: five of them always reach the
  return, with the value and the state that \<open>worker\<close> gives.
\<close>

lemma wsteps_worker:
  "wsteps os h (path, info) 5 AtLoad st =
     (Returned (fst (worker os path info h st)), snd (worker os path info h st))"
  by (simp add: numeral_eq_Suc worker_def Let_def
      split: option.splits sum.splits prod.splits)

lemma pool_step_cases:
  assumes "pool_step os h l a p = Some p'"
  obtains
    (go) task rest where "a = Go" "pending p = task # rest"
      "case l of None \<Rightarrow> True | Some n \<Rightarrow> length (running p) < n"
      "p' = p\<lparr>pending := rest, running := running p @ [(started p, task, AtLoad)],
              started := started p + 1\<rparr>"
  | (retire) i task r where "a = Step i" "map_of (running p) i = Some (task, Returned r)"
      "p' = p\<lparr>running := filter (\<lambda>g. fst g \<noteq> i) (running p),
              returned := returned p @ [(i, r)],
              firstErr := (case firstErr p of None \<Rightarrow> r | Some e \<Rightarrow> Some e)\<rparr>"
  | (work) i task pc pc' m where "a = Step i" "map_of (running p) i = Some (task, pc)"
      "\<forall>r. pc \<noteq> Returned r" "wstep os h task pc (mem p) = (pc', m)"
      "p' = p\<lparr>running := map (\<lambda>g. if fst g = i then (i, task, pc') else g) (running p),
              mem := m\<rparr>"
proof (cases a)
  case Go
  then show ?thesis using assms go
    by (auto simp: pool_step_def split: list.splits if_splits)
next
  case (Step i)
  then obtain task pc where m: "map_of (running p) i = Some (task, pc)"
    using assms by (auto simp: pool_step_def split: option.splits)
  show ?thesis
  proof (cases "\<exists>r. pc = Returned r")
    case True
    then obtain r where pr: "pc = Returned r" by blast
    have "p' = p\<lparr>running := filter (\<lambda>g. fst g \<noteq> i) (running p),
              returned := returned p @ [(i, r)],
              firstErr := (case firstErr p of None \<Rightarrow> r | Some e \<Rightarrow> Some e)\<rparr>"
      using assms Step m pr by (simp add: pool_step_def)
    then show ?thesis using retire[OF Step _ _, of task r] m pr by simp
  next
    case False
    obtain pc' m' where w: "wstep os h task pc (mem p) = (pc', m')" by fastforce
    have "p' = p\<lparr>running := map (\<lambda>g. if fst g = i then (i, task, pc') else g) (running p),
              mem := m'\<rparr>"
      using assms Step m False w by (cases pc) (auto simp: pool_step_def)
    then show ?thesis using work[OF Step m _ w] False by blast
  qed
qed

lemma exec_invariant:
  assumes "exec os h l sched p = Some p'" and "I p"
    and "\<And>a q q'. I q \<Longrightarrow> pool_step os h l a q = Some q' \<Longrightarrow> I q'"
  shows "I p'"
  using assms(1,2)
proof (induction sched arbitrary: p)
  case Nil
  then show ?case by simp
next
  case (Cons a sched)
  then obtain q where q: "pool_step os h l a p = Some q" "exec os h l sched q = Some p'"
    by (auto split: option.splits)
  show ?case using Cons.IH[OF q(2) assms(3)[OF Cons.prems(2) q(1)]] .
qed

lemma exec_append:
  "exec os h l (xs @ ys) p = (case exec os h l xs p of None \<Rightarrow> None | Some q \<Rightarrow> exec os h l ys q)"
  by (induction xs arbitrary: p) (auto split: option.splits)

lemma first_error_snoc:
  "first_error (rs @ [r]) = (case first_error rs of None \<Rightarrow> r | Some e \<Rightarrow> Some e)"
  by (induction rs) (auto split: option.splits)

lemma pool_inv_init: "pool_inv tasks (pool_init tasks)"
  by (simp add: pool_inv_def pool_init_def)

lemma pool_inv_step:
  assumes inv: "pool_inv tasks p" and st: "pool_step os h l a p = Some p'"
  shows "pool_inv tasks p'"
  using st
proof (cases rule: pool_step_cases)
  case (go task rest)
  have d: "drop (started p) tasks = task # rest" using inv go(2) by (simp add: pool_inv_def)
  then have lt: "started p < length tasks" by (metis drop_all list.distinct(1) not_le)
  have t: "task = tasks ! started p" using d
    by (metis Cons_nth_drop_Suc list.inject lt)
  have r: "rest = drop (Suc (started p)) tasks" using d
    by (metis Cons_nth_drop_Suc list.inject lt)
  have nin: "started p \<notin> set (map fst (running p))" "started p \<notin> set (map fst (returned p))"
    using inv unfolding pool_inv_def by (metis Un_iff lessThan_iff less_irrefl)+
  show ?thesis using inv lt t r nin unfolding pool_inv_def go(4)
    by (auto simp: lessThan_Suc)
next
  case (retire i task r)
  have mem: "(i, task, Returned r) \<in> set (running p)" using retire(2) by (rule map_of_SomeD)
  have dis: "distinct (map fst (running p))" using inv by (simp add: pool_inv_def)
  have f: "set (map fst (filter (\<lambda>g. fst g \<noteq> i) (running p))) = set (map fst (running p)) - {i}"
    by auto
  have iin: "i \<in> set (map fst (running p))" using mem by force
  have inr: "i \<notin> set (map fst (returned p))" using inv iin unfolding pool_inv_def by blast
  have d2: "distinct (map fst (filter (\<lambda>g. fst g \<noteq> i) (running p)))"
    using dis by (simp add: distinct_map_filter)
  have u: "(set (map fst (running p)) - {i}) \<union> (insert i (set (map fst (returned p)))) = {..<started p}"
    using inv iin unfolding pool_inv_def by blast
  have i1: "set (map fst (filter (\<lambda>g. fst g \<noteq> i) (running p))) \<inter> set (map fst (returned p @ [(i, r)])) = {}"
    using inv unfolding f pool_inv_def by auto
  have i2: "set (map fst (filter (\<lambda>g. fst g \<noteq> i) (running p))) \<union> set (map fst (returned p @ [(i, r)])) = {..<started p}"
    using u unfolding f by auto
  have i3: "distinct (map fst (returned p @ [(i, r)]))"
    using inv inr unfolding pool_inv_def by auto
  have i4: "\<forall>g \<in> set (filter (\<lambda>g. fst g \<noteq> i) (running p)). fst (snd g) = tasks ! fst g"
    using inv unfolding pool_inv_def by auto
  have i5: "(case firstErr p of None \<Rightarrow> r | Some e \<Rightarrow> Some e) = first_error (map snd (returned p @ [(i, r)]))"
    using inv unfolding pool_inv_def by (simp add: first_error_snoc)
  have i6: "pending p = drop (started p) tasks \<and> started p \<le> length tasks"
    using inv unfolding pool_inv_def by simp
  show ?thesis unfolding pool_inv_def retire(3) using i1 i2 i3 i4 i5 i6 d2 by simp
next
  case (work i task pc pc' m)
  have e: "map fst (map (\<lambda>g. if fst g = i then (i, task, pc') else g) (running p)) = map fst (running p)"
    by (induction "running p") auto
  have mem: "(i, task, pc) \<in> set (running p)" using work(2) by (rule map_of_SomeD)
  then have t: "task = tasks ! i" using inv unfolding pool_inv_def by force
  have g: "\<forall>g \<in> set (map (\<lambda>g. if fst g = i then (i, task, pc') else g) (running p)).
      fst (snd g) = tasks ! fst g"
    using inv t unfolding pool_inv_def by auto
  show ?thesis using inv g unfolding pool_inv_def work(5)
    by (simp add: e del: set_map map_map)
qed

lemma pool_inv_exec:
  "exec os h l sched (pool_init tasks) = Some p \<Longrightarrow> pool_inv tasks p"
  by (rule exec_invariant[where I = "pool_inv tasks"]) (auto intro: pool_inv_init pool_inv_step)

section \<open>Properties of the worker\<close>

text \<open>
  C6. An identifier that is none of the supported ones does not make a worker fail. A
  worker that gets as far as choosing a hasher writes the warning to standard error,
  hashes with SHA-256 and otherwise does exactly what it does for \<open>sha256\<close>: same
  return value, same result line, same cache entry. A worker that finds its inode in the
  cache reuses the digest, as for \<open>sha256\<close>, and writes no warning. So every digest
  computed in such a run is a SHA-256 digest and comes with a warning.
\<close>

theorem unsupported_algorithm_falls_back:
  assumes un: "hashalgo \<notin> set supported"
  shows "newHasher hashalgo =
           (SHA256, [''unsupported hash algorithm '' @ hashalgo @ '' falling back to sha256''])
       \<and> ((case Sys info of None \<Rightarrow> None | Some stat \<Rightarrow> Load (hardLinks st) (Ino stat)) = None \<longrightarrow>
            worker os path info hashalgo st =
              (fst (worker os path info ''sha256'' st),
               (snd (worker os path info ''sha256'' st))
                 \<lparr>stderr := stderr st
                    @ [''unsupported hash algorithm '' @ hashalgo @ '' falling back to sha256'']\<rparr>))
       \<and> ((case Sys info of None \<Rightarrow> None | Some stat \<Rightarrow> Load (hardLinks st) (Ino stat)) \<noteq> None \<longrightarrow>
            worker os path info hashalgo st = worker os path info ''sha256'' st)
       \<and> (Open os path = Inr (Inr bytes)
            \<and> (case Sys info of None \<Rightarrow> None | Some stat \<Rightarrow> Load (hardLinks st) (Ino stat)) = None \<longrightarrow>
              fst (worker os path info hashalgo st) = None
            \<and> stdout (snd (worker os path info hashalgo st))
                = stdout st @ [computedLine (Sum os SHA256 bytes) path]
            \<and> stderr (snd (worker os path info hashalgo st))
                = stderr st @ [''unsupported hash algorithm '' @ hashalgo @ '' falling back to sha256''])"
proof -
  have n: "newHasher hashalgo =
           (SHA256, [''unsupported hash algorithm '' @ hashalgo @ '' falling back to sha256''])"
    using un by (simp add: newHasher_def supported_def)
  have s: "newHasher ''sha256'' = (SHA256, [])" by (simp add: newHasher_def)
  show ?thesis
    by (simp add: n s worker_def Let_def split: option.splits sum.splits)
qed

theorem unsupported_algorithm_falls_back_witness:
  "''sha9'' \<notin> set supported
   \<and> newHasher ''sha9'' = (SHA256, [''unsupported hash algorithm sha9 falling back to sha256''])
   \<and> Open demo_env ''/r/a.txt'' = Inr (Inr ''hi'')
   \<and> Sum demo_env SHA256 ''hi'' = ''ih''
   \<and> fst (worker demo_env ''/r/a.txt'' (file_info 5 2) ''sha9'' st0) = None
   \<and> stdout (snd (worker demo_env ''/r/a.txt'' (file_info 5 2) ''sha9'' st0)) = [''6968  /r/a.txt  -\<newline>'']
   \<and> stderr (snd (worker demo_env ''/r/a.txt'' (file_info 5 2) ''sha9'' st0))
       = [''unsupported hash algorithm sha9 falling back to sha256'']
   \<and> stdout (snd (worker demo_env ''/r/a.txt'' (file_info 5 2) ''md5'' st0)) = [''6869  /r/a.txt  -\<newline>'']"
proof -
  have h: "''sha9'' \<notin> set supported" by (simp add: supported_def)
  have m: "(case Sys (file_info 5 2) of None \<Rightarrow> None | Some stat \<Rightarrow> Load (hardLinks st0) (Ino stat)) = None"
    by (simp add: file_info_def st0_def Load_def)
  have o: "Open demo_env ''/r/a.txt'' = Inr (Inr ''hi'')" "Sum demo_env SHA256 ''hi'' = ''ih''"
    by (simp_all add: demo_env_def)
  have c: "computedLine ''ih'' ''/r/a.txt'' = ''6968  /r/a.txt  -\<newline>''"
    by (simp add: computedLine_def hexdigit_def)
  have md: "stdout (snd (worker demo_env ''/r/a.txt'' (file_info 5 2) ''md5'' st0)) = [''6869  /r/a.txt  -\<newline>'']"
    by (simp add: worker_def demo_env_def file_info_def st0_def Load_def Store_def newHasher_def
        computedLine_def hexdigit_def)
  have t: "fst (worker demo_env ''/r/a.txt'' (file_info 5 2) ''sha9'' st0) = None
      \<and> stdout (snd (worker demo_env ''/r/a.txt'' (file_info 5 2) ''sha9'' st0))
          = stdout st0 @ [computedLine (Sum demo_env SHA256 ''hi'') ''/r/a.txt'']
      \<and> stderr (snd (worker demo_env ''/r/a.txt'' (file_info 5 2) ''sha9'' st0))
          = stderr st0 @ [''unsupported hash algorithm '' @ ''sha9'' @ '' falling back to sha256'']"
    using unsupported_algorithm_falls_back[OF h, where info = "file_info 5 2" and st = st0
        and os = demo_env and path = "''/r/a.txt''" and bytes = "''hi''"] o(1) m
    by blast
  have n: "newHasher ''sha9'' = (SHA256, [''unsupported hash algorithm sha9 falling back to sha256''])"
    by (simp add: newHasher_def)
  have e: "stdout st0 = []" "stderr st0 = []" by (simp_all add: st0_def)
  show ?thesis
    using h o md t n by (simp add: c e)
qed

lemma running_bounded_step:
  assumes "length (running p) \<le> n" and "pool_step os h (Some n) a p = Some p'"
  shows "length (running p') \<le> n"
  using assms(2)
proof (cases rule: pool_step_cases)
  case (go task rest)
  then show ?thesis by simp
next
  case (retire i task r)
  have "length (filter (\<lambda>g. fst g \<noteq> i) (running p)) \<le> length (running p)"
    by (rule length_filter_le)
  then have "length (filter (\<lambda>g. fst g \<noteq> i) (running p)) \<le> n" using assms(1) by (rule order_trans)
  then show ?thesis using retire(3) by simp
next
  case (work i task pc pc' m)
  then show ?thesis using assms(1) by simp
qed

lemma running_bounded:
  assumes "exec os h (Some n) sched (pool_init tasks) = Some p"
  shows "length (running p) \<le> n"
  by (rule exec_invariant[where I = "\<lambda>p. length (running p) \<le> n", OF assms])
     (auto simp: pool_init_def intro: running_bounded_step)

lemma exec_all_Go:
  "k \<le> length (pending p) \<Longrightarrow>
   \<exists>p'. exec os h None (replicate k Go) p = Some p'
        \<and> length (running p') = length (running p) + k \<and> pending p' = drop k (pending p)"
proof (induction k arbitrary: p)
  case 0
  then show ?case by simp
next
  case (Suc k)
  then obtain task rest where pr: "pending p = task # rest" by (cases "pending p") auto
  let ?q = "p\<lparr>pending := rest, running := running p @ [(started p, task, AtLoad)],
               started := started p + 1\<rparr>"
  have st: "pool_step os h None Go p = Some ?q" using pr by (simp add: pool_step_def)
  have "k \<le> length (pending ?q)" using Suc.prems pr by simp
  from Suc.IH[OF this] obtain p' where
    "exec os h None (replicate k Go) ?q = Some p'"
    "length (running p') = length (running ?q) + k" "pending p' = drop k (pending ?q)"
    by blast
  then show ?case using st pr by simp
qed

text \<open>
  C8. With a positive pool size \<open>N\<close> the program sets the group's limit to \<open>N\<close>, and
  then, however the goroutines interleave, at most \<open>N\<close> of them hold a slot at any
  moment of the run; while \<open>N\<close> are running the walk's next \<open>eg.Go\<close> cannot go through,
  and it can as soon as fewer are. With a pool size of zero or less no limit is set, and
  all the tasks of a run, however many, can be running at once.
\<close>

theorem concurrency_limit_respected:
  "(0 < N \<and> exec os h (limit_of N) sched (pool_init tasks) = Some p \<longrightarrow>
      length (running p) \<le> nat N)
   \<and> (0 < N \<and> nat N \<le> length (running q) \<longrightarrow> pool_step os h (limit_of N) Go q = None)
   \<and> (0 < N \<and> length (running q) < nat N \<and> pending q \<noteq> [] \<longrightarrow>
      pool_step os h (limit_of N) Go q \<noteq> None)
   \<and> (N \<le> 0 \<longrightarrow> limit_of N = None
      \<and> (\<exists>p'. exec os h (limit_of N) (replicate (length tasks) Go) (pool_init tasks) = Some p'
             \<and> length (running p') = length tasks))"
proof -
  have a: "0 < N \<and> exec os h (limit_of N) sched (pool_init tasks) = Some p \<longrightarrow>
      length (running p) \<le> nat N"
    using running_bounded[of os h "nat N" sched tasks p] by (simp add: limit_of_def)
  have b: "0 < N \<and> nat N \<le> length (running q) \<longrightarrow> pool_step os h (limit_of N) Go q = None"
    by (auto simp: limit_of_def pool_step_def split: list.splits)
  have c: "0 < N \<and> length (running q) < nat N \<and> pending q \<noteq> [] \<longrightarrow>
      pool_step os h (limit_of N) Go q \<noteq> None"
    by (auto simp: limit_of_def pool_step_def split: list.splits)
  have d: "N \<le> 0 \<longrightarrow> limit_of N = None
      \<and> (\<exists>p'. exec os h (limit_of N) (replicate (length tasks) Go) (pool_init tasks) = Some p'
             \<and> length (running p') = length tasks)"
    using exec_all_Go[of "length tasks" "pool_init tasks" os h]
    by (auto simp: limit_of_def pool_init_def)
  show ?thesis using a b c d by blast
qed

theorem concurrency_limit_respected_witness:
  "(0::int) < 1
   \<and> exec demo_env ''sha256'' (limit_of 1) [Go, Step 0] (pool_init race_tasks)
       = Some \<lparr>pending = [(''/r/b.txt'', file_info 5 2)],
               running = [(0, (''/r/a.txt'', file_info 5 2), AtHasher)],
               started = 1, returned = [], firstErr = None, mem = st0\<rparr>
   \<and> length (running \<lparr>pending = [(''/r/b.txt'', file_info 5 2)],
               running = [(0, (''/r/a.txt'', file_info 5 2), AtHasher)],
               started = 1, returned = [], firstErr = None, mem = st0\<rparr>) \<le> nat 1
   \<and> pool_step demo_env ''sha256'' (limit_of 1) Go
        \<lparr>pending = [(''/r/b.txt'', file_info 5 2)],
         running = [(0, (''/r/a.txt'', file_info 5 2), AtHasher)],
         started = 1, returned = [], firstErr = None, mem = st0\<rparr> = None
   \<and> exec demo_env ''sha256'' (limit_of 1) [Go, Go] (pool_init race_tasks) = None
   \<and> exec demo_env ''sha256'' (limit_of 2) [Go, Go] (pool_init race_tasks)
       = Some \<lparr>pending = [],
               running = [(0, (''/r/a.txt'', file_info 5 2), AtLoad),
                          (1, (''/r/b.txt'', file_info 5 2), AtLoad)],
               started = 2, returned = [], firstErr = None, mem = st0\<rparr>
   \<and> exec demo_env ''sha256'' (limit_of 0) [Go, Go] (pool_init race_tasks)
       = Some \<lparr>pending = [],
               running = [(0, (''/r/a.txt'', file_info 5 2), AtLoad),
                          (1, (''/r/b.txt'', file_info 5 2), AtLoad)],
               started = 2, returned = [], firstErr = None, mem = st0\<rparr>"
proof -
  have e: "exec demo_env ''sha256'' (limit_of 1) [Go, Step 0] (pool_init race_tasks)
       = Some \<lparr>pending = [(''/r/b.txt'', file_info 5 2)],
               running = [(0, (''/r/a.txt'', file_info 5 2), AtHasher)],
               started = 1, returned = [], firstErr = None, mem = st0\<rparr>"
    by (simp add: limit_of_def pool_step_def pool_init_def race_tasks_def file_info_def st0_def Load_def)
  have z: "(0::int) < 1" by simp
  show ?thesis
    using e z
      concurrency_limit_respected[where N = 1 and os = demo_env and h = "''sha256''"
        and sched = "[Go, Step 0]" and tasks = race_tasks
        and p = "\<lparr>pending = [(''/r/b.txt'', file_info 5 2)],
               running = [(0, (''/r/a.txt'', file_info 5 2), AtHasher)],
               started = 1, returned = [], firstErr = None, mem = st0\<rparr>"]
    by (simp add: limit_of_def pool_step_def pool_init_def race_tasks_def)
qed

lemmas sched_defs = race_start_def race_sched_def usb_tasks_def race_tasks_def limit_of_def
  pool_step_def pool_init_def file_info_def st0_def demo_env_def Load_def Store_def newHasher_def
  computedLine_def reusedLine_def hexdigit_def

lemma wstep_cache:
  assumes "wstep os h task pc st = (pc', st')"
  shows "hardLinks st' = hardLinks st
       \<or> (\<exists>stat hash. pc = AtStore hash \<and> Sys (snd task) = Some stat \<and> 1 < Nlink stat
             \<and> hardLinks st' = Store (hardLinks st) (Ino stat) (hex hash))"
  using assms
  by (cases task; cases pc) (auto simp: Let_def split: option.splits sum.splits prod.splits if_splits)

lemma pool_step_cache:
  assumes inv: "pool_inv tasks p" and st: "pool_step os h l a p = Some p'"
  shows "hardLinks (mem p') = hardLinks (mem p)
       \<or> (\<exists>k v. linked tasks k \<and> hardLinks (mem p') = Store (hardLinks (mem p)) k v)"
  using st
proof (cases rule: pool_step_cases)
  case (go task rest)
  then show ?thesis by simp
next
  case (retire i task r)
  then show ?thesis by simp
next
  case (work i task pc pc' m)
  have mem: "(i, task, pc) \<in> set (running p)" using work(2) by (rule map_of_SomeD)
  then have t: "task = tasks ! i" using inv unfolding pool_inv_def by force
  have "i \<in> set (map fst (running p))" using mem by force
  then have "i < started p" using inv unfolding pool_inv_def by auto
  then have il: "i < length tasks" using inv unfolding pool_inv_def by simp
  then have ts: "task \<in> set tasks" using t by simp
  from wstep_cache[OF work(4)] show ?thesis
  proof
    assume "hardLinks m = hardLinks (mem p)"
    then show ?thesis using work(5) by simp
  next
    assume "\<exists>stat hash. pc = AtStore hash \<and> Sys (snd task) = Some stat \<and> 1 < Nlink stat
             \<and> hardLinks m = Store (hardLinks (mem p)) (Ino stat) (hex hash)"
    then obtain stat hash where s: "Sys (snd task) = Some stat" "1 < Nlink stat"
       "hardLinks m = Store (hardLinks (mem p)) (Ino stat) (hex hash)" by blast
    have "linked tasks (Ino stat)" unfolding linked_def list_ex_iff
      using ts s(1,2) by (intro bexI[of _ task]) auto
    then show ?thesis using s(3) work(5) by auto
  qed
qed

lemma pool_step_dom:
  assumes inv: "pool_inv tasks p" and st: "pool_step os h l a p = Some p'"
  shows "dom (hardLinks (mem p)) \<subseteq> dom (hardLinks (mem p'))"
  using pool_step_cache[OF inv st] by (auto simp: Store_def)

lemma exec_dom:
  assumes "pool_inv tasks p" and "exec os h l sched p = Some p'"
  shows "pool_inv tasks p' \<and> dom (hardLinks (mem p)) \<subseteq> dom (hardLinks (mem p'))"
  using assms
proof (induction sched arbitrary: p)
  case Nil
  then show ?case by simp
next
  case (Cons a sched)
  then obtain q where q: "pool_step os h l a p = Some q" "exec os h l sched q = Some p'"
    by (auto split: option.splits)
  have iq: "pool_inv tasks q" using pool_inv_step[OF Cons.prems(1) q(1)] .
  show ?case using Cons.IH[OF iq q(2)] pool_step_dom[OF Cons.prems(1) q(1)] by blast
qed

lemma cache_linked_step:
  assumes inv: "pool_inv tasks p \<and> (\<forall>k. hardLinks (mem p) k \<noteq> None \<longrightarrow> linked tasks k)"
    and st: "pool_step os h l a p = Some p'"
  shows "pool_inv tasks p' \<and> (\<forall>k. hardLinks (mem p') k \<noteq> None \<longrightarrow> linked tasks k)"
proof -
  have i: "pool_inv tasks p" and c: "\<forall>k. hardLinks (mem p) k \<noteq> None \<longrightarrow> linked tasks k"
    using inv by auto
  have i': "pool_inv tasks p'" using pool_inv_step[OF i st] .
  from pool_step_cache[OF i st] show ?thesis using i' c
    by (auto simp: Store_def split: if_splits)
qed

lemma cache_linked:
  assumes "exec os h l sched (pool_init tasks) = Some p"
  shows "\<forall>k. hardLinks (mem p) k \<noteq> None \<longrightarrow> linked tasks k"
proof -
  have "pool_inv tasks p \<and> (\<forall>k. hardLinks (mem p) k \<noteq> None \<longrightarrow> linked tasks k)"
  proof (rule exec_invariant[where I = "\<lambda>p. pool_inv tasks p \<and> (\<forall>k. hardLinks (mem p) k \<noteq> None \<longrightarrow> linked tasks k)", OF assms])
    show "pool_inv tasks (pool_init tasks)
        \<and> (\<forall>k. hardLinks (mem (pool_init tasks)) k \<noteq> None \<longrightarrow> linked tasks k)"
      using pool_inv_init[of tasks] by (simp add: pool_init_def st0_def)
  next
    fix a q q'
    assume "pool_inv tasks q \<and> (\<forall>k. hardLinks (mem q) k \<noteq> None \<longrightarrow> linked tasks k)"
      and "pool_step os h l a q = Some q'"
    then show "pool_inv tasks q' \<and> (\<forall>k. hardLinks (mem q') k \<noteq> None \<longrightarrow> linked tasks k)"
      by (rule cache_linked_step)
  qed
  then show ?thesis by simp
qed

lemma worker_keeps_entries:
  "hardLinks st k = Some v \<Longrightarrow> hardLinks (snd (worker os path info h st)) k = Some v"
  by (auto simp: worker_def Let_def Load_def Store_def split: option.splits sum.splits prod.splits)

text \<open>
  C2, as the code has it. At every moment of a run, whatever the interleaving, the cache
  holds entries only for inodes that some task of the run has with a link count above
  one; no entry is ever removed; and a scheduler action either leaves the cache as it is
  or performs one \<open>Store\<close>, which sets the value of its key whether or not the key is
  there. A worker that runs from its lookup to its return without another worker in
  between leaves every entry it found as it was: then the first writer's value stays.
\<close>

theorem cache_written_by_store:
  "(exec os h l sched (pool_init tasks) = Some p \<and> hardLinks (mem p) k \<noteq> None
      \<longrightarrow> linked tasks k)
   \<and> (exec os h l sched (pool_init tasks) = Some p \<and> exec os h l sched' p = Some p'
      \<longrightarrow> dom (hardLinks (mem p)) \<subseteq> dom (hardLinks (mem p')))
   \<and> (exec os h l sched (pool_init tasks) = Some p \<and> pool_step os h l a p = Some p'
      \<longrightarrow> hardLinks (mem p') = hardLinks (mem p)
          \<or> (\<exists>k v. linked tasks k \<and> hardLinks (mem p') = Store (hardLinks (mem p)) k v))
   \<and> (hardLinks st k = Some v \<longrightarrow> hardLinks (snd (worker os path info h st)) k = Some v)"
proof -
  have a: "exec os h l sched (pool_init tasks) = Some p \<and> hardLinks (mem p) k \<noteq> None
      \<longrightarrow> linked tasks k"
    using cache_linked[of os h l sched tasks p] by blast
  have b: "exec os h l sched (pool_init tasks) = Some p \<and> exec os h l sched' p = Some p'
      \<longrightarrow> dom (hardLinks (mem p)) \<subseteq> dom (hardLinks (mem p'))"
    using exec_dom[OF pool_inv_exec, where sched = sched' and p' = p'] by blast
  have c: "exec os h l sched (pool_init tasks) = Some p \<and> pool_step os h l a p = Some p'
      \<longrightarrow> hardLinks (mem p') = hardLinks (mem p)
          \<or> (\<exists>k v. linked tasks k \<and> hardLinks (mem p') = Store (hardLinks (mem p)) k v)"
    using pool_step_cache[OF pool_inv_exec, where a = a and p' = p'] by blast
  have d: "hardLinks st k = Some v \<longrightarrow> hardLinks (snd (worker os path info h st)) k = Some v"
    using worker_keeps_entries by blast
  show ?thesis using a b c d by blast
qed

theorem cache_written_by_store_witness:
  "exec demo_env ''sha256'' (limit_of 8) race_start (pool_init usb_tasks) \<noteq> None
   \<and> hardLinks (mem (the (exec demo_env ''sha256'' (limit_of 8) race_start (pool_init usb_tasks)))) 5
       = Some ''6968''
   \<and> linked usb_tasks 5
   \<and> hardLinks (snd (worker demo_env ''/r/secret/k.txt'' (file_info 12 2) ''sha256''
                        (st0\<lparr>hardLinks := [5 \<mapsto> ''6968'']\<rparr>))) 5 = Some ''6968''
   \<and> hardLinks (snd (worker demo_env ''/r/secret/k.txt'' (file_info 12 2) ''sha256''
                        (st0\<lparr>hardLinks := [5 \<mapsto> ''6968'']\<rparr>))) 12 = Some ''79656b''"
proof -
  have e: "exec demo_env ''sha256'' (limit_of 8) race_start (pool_init usb_tasks) \<noteq> None"
    by (simp add: sched_defs)
  then have e': "exec demo_env ''sha256'' (limit_of 8) race_start (pool_init usb_tasks)
      = Some (the (exec demo_env ''sha256'' (limit_of 8) race_start (pool_init usb_tasks)))"
    by simp
  have v: "hardLinks (mem (the (exec demo_env ''sha256'' (limit_of 8) race_start (pool_init usb_tasks)))) 5
       = Some ''6968''"
    by (simp add: sched_defs)
  have k: "hardLinks (st0\<lparr>hardLinks := [5 \<mapsto> ''6968'']\<rparr>) 5 = Some ''6968''" by simp
  have w: "hardLinks (snd (worker demo_env ''/r/secret/k.txt'' (file_info 12 2) ''sha256''
                        (st0\<lparr>hardLinks := [5 \<mapsto> ''6968'']\<rparr>))) 12 = Some ''79656b''"
    by (simp add: worker_def sched_defs)
  note t = cache_written_by_store[where os = demo_env and h = "''sha256''" and l = "limit_of 8"
      and sched = race_start and tasks = usb_tasks and k = 5 and v = "''6968''"
      and p = "the (exec demo_env ''sha256'' (limit_of 8) race_start (pool_init usb_tasks))"
      and st = "st0\<lparr>hardLinks := [5 \<mapsto> ''6968'']\<rparr>" and path = "''/r/secret/k.txt''"
      and info = "file_info 12 2"]
  have l: "linked usb_tasks 5" using t e' v by auto
  have u: "hardLinks (snd (worker demo_env ''/r/secret/k.txt'' (file_info 12 2) ''sha256''
                        (st0\<lparr>hardLinks := [5 \<mapsto> ''6968'']\<rparr>))) 5 = Some ''6968''"
    using t k by blast
  show ?thesis using e v l u w by simp
qed

text \<open>
  The claim as first stated fails when two workers for the same inode number both look
  it up before either stores: the second \<open>Store\<close> replaces the entry of the first. Here
  the two files differ (they are on different file systems), and the entry for inode 5
  changes from the digest of one to the digest of the other: \<open>Store\<close> is not an
  insert-if-absent.
\<close>

theorem cache_entry_overwritten:
  "exec demo_env ''sha256'' (limit_of 8) race_start (pool_init usb_tasks) \<noteq> None
   \<and> hardLinks (mem (the (exec demo_env ''sha256'' (limit_of 8) race_start (pool_init usb_tasks)))) 5
       = Some ''6968''
   \<and> exec demo_env ''sha256'' (limit_of 8) (race_start @ [Step 1, Step 1, Step 1]) (pool_init usb_tasks)
       \<noteq> None
   \<and> hardLinks (mem (the (exec demo_env ''sha256'' (limit_of 8) (race_start @ [Step 1, Step 1, Step 1])
                             (pool_init usb_tasks)))) 5
       = Some ''6f79''
   \<and> Store [5 \<mapsto> ''6968''] 5 ''6f79'' 5 = Some ''6f79''"
  by (simp add: sched_defs)

lemma map_of_filter_fst:
  "map_of (filter (\<lambda>g. fst g \<noteq> j) xs) i = (if i = j then None else map_of xs i)"
  by (induction xs) auto

lemma map_of_replace:
  "map_of (map (\<lambda>g. if fst g = j then (j, v) else g) xs) i =
     (if i = j then (case map_of xs j of None \<Rightarrow> None | Some u \<Rightarrow> Some v) else map_of xs i)"
  by (induction xs) auto

lemma map_of_snoc:
  "map_of (xs @ [(k, v)]) i =
     (case map_of xs i of Some x \<Rightarrow> Some x | None \<Rightarrow> if i = k then Some v else None)"
  by (induction xs) auto

lemma map_of_None_iff: "(map_of xs i = None) = (i \<notin> set (map fst xs))"
  by (simp add: map_of_eq_None_iff)

lemma phase_step:
  assumes inv: "pool_inv tasks p" and st: "pool_step os h l a p = Some p'"
  shows "(phase_of p' i = phase_of p i \<and> a \<noteq> Step i)
       \<or> (phase_of p i = Waiting \<and> phase_of p' i = Running AtLoad \<and> mem p' = mem p)
       \<or> (\<exists>r. phase_of p i = Running (Returned r) \<and> phase_of p' i = Finished r \<and> mem p' = mem p)
       \<or> (\<exists>pc pc' m. phase_of p i = Running pc \<and> (\<forall>r. pc \<noteq> Returned r)
             \<and> wstep os h (tasks ! i) pc (mem p) = (pc', m)
             \<and> phase_of p' i = Running pc' \<and> mem p' = m)"
  using st
proof (cases rule: pool_step_cases)
  case (go task rest)
  have n1: "map_of (running p) (started p) = None" "map_of (returned p) (started p) = None"
    using inv unfolding pool_inv_def map_of_None_iff by (metis Un_iff lessThan_iff less_irrefl)+
  have r2: "map_of (returned p') i = map_of (returned p) i" using go(4) by simp
  show ?thesis
  proof (cases "i = started p")
    case True
    have r1: "map_of (running p') i = Some (task, AtLoad)"
      using True n1 go(4) by (simp add: map_of_snoc del: map_of_append)
    have "phase_of p i = Waiting" using True n1 by (simp add: phase_of_def)
    moreover have "phase_of p' i = Running AtLoad" by (simp add: phase_of_def r1)
    moreover have "mem p' = mem p" using go(4) by simp
    ultimately show ?thesis by blast
  next
    case False
    have r1: "map_of (running p') i = map_of (running p) i"
      using False go(4) by (simp add: map_of_snoc del: map_of_append split: option.splits)
    have "phase_of p' i = phase_of p i" unfolding phase_of_def r1 r2 by (rule refl)
    then show ?thesis using go(1) by simp
  qed
next
  case (retire j task r)
  have jin: "j \<in> set (map fst (running p))" using retire(2) by (metis map_of_None_iff option.distinct(1))
  then have n: "map_of (returned p) j = None"
    using inv unfolding pool_inv_def map_of_None_iff by blast
  show ?thesis
  proof (cases "i = j")
    case True
    have r1: "map_of (running p') i = None" using True retire(3) by (simp add: map_of_filter_fst)
    have r2: "map_of (returned p') i = Some r"
      using True n retire(3) by (simp add: map_of_snoc del: map_of_append)
    have "phase_of p i = Running (Returned r)" using True retire(2) by (simp add: phase_of_def)
    moreover have "phase_of p' i = Finished r" by (simp add: phase_of_def r1 r2)
    moreover have "mem p' = mem p" using retire(3) by simp
    ultimately show ?thesis by blast
  next
    case False
    have r1: "map_of (running p') i = map_of (running p) i"
      using False retire(3) by (simp add: map_of_filter_fst)
    have r2: "map_of (returned p') i = map_of (returned p) i"
      using False retire(3) by (simp add: map_of_snoc del: map_of_append split: option.splits)
    have "phase_of p' i = phase_of p i" unfolding phase_of_def r1 r2 by (rule refl)
    then show ?thesis using False retire(1) by simp
  qed
next
  case (work j task pc pc' m)
  have mem: "(j, task, pc) \<in> set (running p)" using work(2) by (rule map_of_SomeD)
  then have t: "task = tasks ! j" using inv unfolding pool_inv_def by force
  have r2: "map_of (returned p') i = map_of (returned p) i" using work(5) by simp
  show ?thesis
  proof (cases "i = j")
    case True
    have r1: "map_of (running p') i = Some (task, pc')"
      using True work(2,5) by (simp add: map_of_replace)
    have "phase_of p i = Running pc" using True work(2) by (simp add: phase_of_def)
    moreover have "phase_of p' i = Running pc'" by (simp add: phase_of_def r1)
    moreover have "mem p' = m" using work(5) by simp
    moreover have "wstep os h (tasks ! i) pc (mem p) = (pc', m)" using work(4) t True by simp
    ultimately show ?thesis using work(3) by blast
  next
    case False
    have r1: "map_of (running p') i = map_of (running p) i"
      using False work(5) by (simp add: map_of_replace)
    have "phase_of p' i = phase_of p i" unfolding phase_of_def r1 r2 by (rule refl)
    then show ?thesis using False work(1) by simp
  qed
qed

lemma wstep_stdout:
  "wstep os h task pc st = (pc', st') \<Longrightarrow> set (stdout st) \<subseteq> set (stdout st')"
  by (cases task; cases pc) (auto simp: Let_def split: option.splits sum.splits prod.splits if_splits)

lemma pool_step_stdout:
  assumes "pool_step os h l a p = Some p'"
  shows "set (stdout (mem p)) \<subseteq> set (stdout (mem p'))"
  using assms
proof (cases rule: pool_step_cases)
  case (work i task pc pc' m)
  then show ?thesis using wstep_stdout[OF work(4)] by simp
qed simp_all


lemma reuse_step:
  assumes ti: "tasks ! i = (path, info)" and sy: "Sys info = Some stat"
    and R: "pool_inv tasks q \<and> hardLinks (mem q) (Ino stat) \<noteq> None \<and> reuse_path (phase_of q i)
         \<and> (phase_of q i = Running (Returned None) \<or> phase_of q i = Finished None
              \<longrightarrow> (\<exists>d. reusedLine d path \<in> set (stdout (mem q))))"
    and st: "pool_step os h l a q = Some q'"
  shows "pool_inv tasks q' \<and> hardLinks (mem q') (Ino stat) \<noteq> None \<and> reuse_path (phase_of q' i)
         \<and> (phase_of q' i = Running (Returned None) \<or> phase_of q' i = Finished None
              \<longrightarrow> (\<exists>d. reusedLine d path \<in> set (stdout (mem q'))))"
proof -
  have inv: "pool_inv tasks q" and pr: "hardLinks (mem q) (Ino stat) \<noteq> None"
    and rp: "reuse_path (phase_of q i)"
    and ln: "phase_of q i = Running (Returned None) \<or> phase_of q i = Finished None
              \<Longrightarrow> \<exists>d. reusedLine d path \<in> set (stdout (mem q))"
    using R by auto
  have inv': "pool_inv tasks q'" using pool_inv_step[OF inv st] .
  have pr': "hardLinks (mem q') (Ino stat) \<noteq> None"
    using pool_step_dom[OF inv st] pr by blast
  have so: "set (stdout (mem q)) \<subseteq> set (stdout (mem q'))" using pool_step_stdout[OF st] .
  from phase_step[OF inv st, of i]
  consider (same) "phase_of q' i = phase_of q i"
    | (start) "phase_of q i = Waiting" "phase_of q' i = Running AtLoad"
    | (fin) r where "phase_of q i = Running (Returned r)" "phase_of q' i = Finished r"
    | (work) pc pc' m where "phase_of q i = Running pc" "\<forall>r. pc \<noteq> Returned r"
        "wstep os h (tasks ! i) pc (mem q) = (pc', m)" "phase_of q' i = Running pc'" "mem q' = m"
    by blast
  then have "reuse_path (phase_of q' i)
         \<and> (phase_of q' i = Running (Returned None) \<or> phase_of q' i = Finished None
              \<longrightarrow> (\<exists>d. reusedLine d path \<in> set (stdout (mem q'))))"
  proof cases
    case same
    then show ?thesis using rp ln so by auto
  next
    case start
    then show ?thesis by simp
  next
    case (fin r)
    then have "r = None" using rp by (cases r) auto
    then show ?thesis using fin ln so by auto
  next
    case (work pc pc' m)
    have "pc = AtLoad \<or> (\<exists>d. pc = AtReuse d)"
      using rp work(1,2) by (cases pc) auto
    then show ?thesis
    proof
      assume "pc = AtLoad"
      then show ?thesis using work(3,4) ti sy pr by (auto simp: Load_def)
    next
      assume "\<exists>d. pc = AtReuse d"
      then obtain d where d: "pc = AtReuse d" by blast
      have m: "m = (mem q)\<lparr>stdout := stdout (mem q) @ [reusedLine d path]\<rparr>" "pc' = Returned None"
        using work(3) ti d by auto
      have "reusedLine d path \<in> set (stdout (mem q'))" using m(1) work(5) by simp
      then show ?thesis using work(4) m(2) by auto
    qed
  qed
  then show ?thesis using inv' pr' by blast
qed

lemma step_of_reusing_task_opens_nothing:
  assumes inv: "pool_inv tasks q" and rp: "reuse_path (phase_of q i)"
    and st: "pool_step os h l (Step i) q = Some q'"
  shows "opened (mem q') = opened (mem q)"
  using st
proof (cases rule: pool_step_cases)
  case (retire j task r)
  then show ?thesis by simp
next
  case (work j task pc pc' m)
  then have ph: "phase_of q i = Running pc" by (simp add: phase_of_def)
  have "pc = AtLoad \<or> (\<exists>d. pc = AtReuse d)"
    using rp ph work(3) by (cases pc) auto
  then show ?thesis using work(4,5)
    by (cases task) (auto split: option.splits)
qed simp

text \<open>
  C1, as the code has it. Take any moment of a run, under any interleaving, at which the
  inode of task \<open>i\<close> is in the cache and task \<open>i\<close> has not yet done its lookup (it is still
  to be handed to \<open>eg.Go\<close>, or it stands before \<open>hardLinks.Load\<close>). Then, however the run
  goes on, task \<open>i\<close> only ever stands before its lookup, before the print of the reused
  line, or at its return of nil: it never reaches \<open>os.Open\<close>, no step of it changes the
  list of opened paths, and once it has finished its reused line is on standard output.
  A worker run on its own that finds digest \<open>d\<close> for its inode prints the reused line with
  \<open>d\<close> and returns nil. Nothing is said of a worker that did its lookup before the entry
  was stored.
\<close>

theorem cached_inode_is_reused:
  assumes reach: "exec os h l sched (pool_init tasks) = Some p"
    and il: "i < length tasks"
    and ti: "tasks ! i = (path, info)" and sy: "Sys info = Some stat"
    and present: "hardLinks (mem p) (Ino stat) \<noteq> None"
    and before: "phase_of p i = Waiting \<or> phase_of p i = Running AtLoad"
    and cont: "exec os h l sched' p = Some p'"
  shows "reuse_path (phase_of p' i)
       \<and> (phase_of p' i = Finished None \<longrightarrow> (\<exists>d. reusedLine d path \<in> set (stdout (mem p'))))
       \<and> (pool_step os h l (Step i) p' = Some p'' \<longrightarrow> opened (mem p'') = opened (mem p'))
       \<and> (Load (hardLinks st) (Ino stat) = Some d \<longrightarrow>
            worker os path info h st = (None, st\<lparr>stdout := stdout st @ [reusedLine d path]\<rparr>))"
proof -
  let ?R = "\<lambda>q. pool_inv tasks q \<and> hardLinks (mem q) (Ino stat) \<noteq> None \<and> reuse_path (phase_of q i)
         \<and> (phase_of q i = Running (Returned None) \<or> phase_of q i = Finished None
              \<longrightarrow> (\<exists>d. reusedLine d path \<in> set (stdout (mem q))))"
  have R0: "?R p" using pool_inv_exec[OF reach] present before by auto
  have R': "?R p'"
  proof (rule exec_invariant[where I = ?R, OF cont R0])
    fix a q q'
    assume "?R q" and "pool_step os h l a q = Some q'"
    then show "?R q'" by (rule reuse_step[OF ti sy])
  qed
  have c: "pool_step os h l (Step i) p' = Some p'' \<longrightarrow> opened (mem p'') = opened (mem p')"
    using step_of_reusing_task_opens_nothing[of tasks p' i os h l p''] R' by blast
  have d: "Load (hardLinks st) (Ino stat) = Some d \<longrightarrow>
            worker os path info h st = (None, st\<lparr>stdout := stdout st @ [reusedLine d path]\<rparr>)"
    using sy by (simp add: worker_def)
  show ?thesis using R' c d by blast
qed


theorem cached_inode_is_reused_witness:
  "exec demo_env ''sha256'' (limit_of 1) seq_start (pool_init race_tasks) \<noteq> None
   \<and> 1 < length race_tasks
   \<and> race_tasks ! 1 = (''/r/b.txt'', file_info 5 2)
   \<and> Sys (file_info 5 2) = Some \<lparr>Ino = 5, Nlink = 2\<rparr>
   \<and> hardLinks (mem (the (exec demo_env ''sha256'' (limit_of 1) seq_start (pool_init race_tasks)))) 5
       = Some ''6968''
   \<and> phase_of (the (exec demo_env ''sha256'' (limit_of 1) seq_start (pool_init race_tasks))) 1 = Waiting
   \<and> exec demo_env ''sha256'' (limit_of 1) seq_rest
         (the (exec demo_env ''sha256'' (limit_of 1) seq_start (pool_init race_tasks))) \<noteq> None
   \<and> reuse_path (phase_of (the (exec demo_env ''sha256'' (limit_of 1) seq_rest
         (the (exec demo_env ''sha256'' (limit_of 1) seq_start (pool_init race_tasks))))) 1)
   \<and> phase_of (the (exec demo_env ''sha256'' (limit_of 1) seq_rest
         (the (exec demo_env ''sha256'' (limit_of 1) seq_start (pool_init race_tasks))))) 1 = Finished None
   \<and> stdout (mem (the (exec demo_env ''sha256'' (limit_of 1) seq_rest
         (the (exec demo_env ''sha256'' (limit_of 1) seq_start (pool_init race_tasks))))))
       = [''6968  /r/a.txt  -\<newline>'', ''6968  /r/b.txt  *\<newline>'']
   \<and> opened (mem (the (exec demo_env ''sha256'' (limit_of 1) seq_rest
         (the (exec demo_env ''sha256'' (limit_of 1) seq_start (pool_init race_tasks))))))
       = [''/r/a.txt'']"
proof -
  let ?p = "the (exec demo_env ''sha256'' (limit_of 1) seq_start (pool_init race_tasks))"
  let ?p' = "the (exec demo_env ''sha256'' (limit_of 1) seq_rest ?p)"
  have e: "exec demo_env ''sha256'' (limit_of 1) seq_start (pool_init race_tasks) \<noteq> None"
    by (simp add: sched_defs seq_start_def)
  then have e': "exec demo_env ''sha256'' (limit_of 1) seq_start (pool_init race_tasks) = Some ?p"
    by simp
  have t: "race_tasks ! 1 = (''/r/b.txt'', file_info 5 2)"
    "Sys (file_info 5 2) = Some \<lparr>Ino = 5, Nlink = 2\<rparr>"
    by (simp_all add: race_tasks_def file_info_def)
  have il: "1 < length race_tasks" by (simp add: race_tasks_def)
  have v: "hardLinks (mem ?p) 5 = Some ''6968''" "phase_of ?p 1 = Waiting"
    by (simp_all add: sched_defs seq_start_def phase_of_def)
  have pr: "hardLinks (mem ?p) (Ino \<lparr>Ino = 5, Nlink = 2\<rparr>) \<noteq> None" using v(1) by simp
  have c: "exec demo_env ''sha256'' (limit_of 1) seq_rest ?p \<noteq> None"
    by (simp add: sched_defs seq_start_def seq_rest_def)
  then have c': "exec demo_env ''sha256'' (limit_of 1) seq_rest ?p = Some ?p'" by simp
  have r: "reuse_path (phase_of ?p' 1)"
    using cached_inode_is_reused[OF e' il t pr _ c'] v(2) by blast
  have f: "phase_of ?p' 1 = Finished None"
    "stdout (mem ?p') = [''6968  /r/a.txt  -\<newline>'', ''6968  /r/b.txt  *\<newline>'']"
    "opened (mem ?p') = [''/r/a.txt'']"
    by (simp_all add: sched_defs seq_start_def seq_rest_def phase_of_def)
  show ?thesis using e il t v c r f by simp
qed

text \<open>
  The claim as first stated fails for two workers on hard links of one inode when both
  look the inode up before either has stored: after the first has stored the digest for
  inode 5, the second still opens and reads \<open>/r/b.txt\<close>, and both print a computed line.
\<close>

theorem cached_inode_read_again:
  "exec demo_env ''sha256'' (limit_of 8) race_start (pool_init race_tasks) \<noteq> None
   \<and> hardLinks (mem (the (exec demo_env ''sha256'' (limit_of 8) race_start (pool_init race_tasks)))) 5
       = Some ''6968''
   \<and> opened (mem (the (exec demo_env ''sha256'' (limit_of 8) race_start (pool_init race_tasks))))
       = [''/r/a.txt'']
   \<and> exec demo_env ''sha256'' (limit_of 8) (race_start @ [Step 1, Step 1]) (pool_init race_tasks) \<noteq> None
   \<and> opened (mem (the (exec demo_env ''sha256'' (limit_of 8) (race_start @ [Step 1, Step 1])
                          (pool_init race_tasks))))
       = [''/r/a.txt'', ''/r/b.txt'']
   \<and> exec demo_env ''sha256'' (limit_of 8) race_sched (pool_init race_tasks) \<noteq> None
   \<and> complete (the (exec demo_env ''sha256'' (limit_of 8) race_sched (pool_init race_tasks)))
   \<and> stdout (mem (the (exec demo_env ''sha256'' (limit_of 8) race_sched (pool_init race_tasks))))
       = [''6968  /r/a.txt  -\<newline>'', ''6968  /r/b.txt  -\<newline>'']"
  by (simp add: sched_defs complete_def)

section \<open>Properties of a whole run\<close>

lemma complete_all_returned:
  assumes inv: "pool_inv tasks p" and c: "complete p"
  shows "distinct (map fst (returned p)) \<and> set (map fst (returned p)) = {..<length tasks}
       \<and> firstErr p = first_error (map snd (returned p))"
proof -
  have "drop (started p) tasks = []" using inv c by (simp add: pool_inv_def complete_def)
  moreover have "started p \<le> length tasks" using inv by (simp add: pool_inv_def)
  ultimately have s: "started p = length tasks" by simp
  show ?thesis using inv c s by (simp add: pool_inv_def complete_def)
qed

lemma first_error_Some_iff: "(first_error rs \<noteq> None) = (\<exists>e. Some e \<in> set rs)"
  by (induction rs) (auto split: option.splits)

lemma first_error_in: "first_error rs = Some e \<Longrightarrow> Some e \<in> set rs"
  by (induction rs) (auto split: option.splits)

lemma wstep_rank:
  "\<forall>r. pc \<noteq> Returned r \<Longrightarrow> wstep os h task pc st = (pc', st') \<Longrightarrow> rank pc' < rank pc"
  by (cases task; cases pc) (auto simp: Let_def split: option.splits sum.splits prod.splits)

lemma sum_filter_less:
  "x \<in> set xs \<Longrightarrow> \<not> P x \<Longrightarrow> 0 < f x \<Longrightarrow>
   sum_list (map f (filter P xs)) < (sum_list (map f xs) :: nat)"
proof (induction xs)
  case Nil
  then show ?case by simp
next
  case (Cons y ys)
  have le: "sum_list (map f (filter P ys)) \<le> sum_list (map f ys)"
    by (induction ys) auto
  show ?case
  proof (cases "x = y")
    case True
    then show ?thesis using Cons.prems le by simp
  next
    case False
    then have "sum_list (map f (filter P ys)) < sum_list (map f ys)"
      using Cons by simp
    then show ?thesis by simp
  qed
qed

lemma sum_replace:
  "distinct (map fst xs) \<Longrightarrow> map_of xs j = Some (t, pc) \<Longrightarrow>
   sum_list (map (\<lambda>g. rank (snd (snd g))) (map (\<lambda>g. if fst g = j then (j, t, pc') else g) xs)) + rank pc
   = sum_list (map (\<lambda>g. rank (snd (snd g))) xs) + rank pc'"
proof (induction xs)
  case Nil
  then show ?case by simp
next
  case (Cons y ys)
  show ?case
  proof (cases "fst y = j")
    case True
    then have y: "y = (j, t, pc)" using Cons.prems(2) by (cases y) auto
    have "j \<notin> set (map fst ys)" using Cons.prems(1) True by auto
    then have "map (\<lambda>g. if fst g = j then (j, t, pc') else g) ys = ys"
      by (induction ys) auto
    then show ?thesis using y by simp
  next
    case False
    then have "map_of ys j = Some (t, pc)" using Cons.prems(2) by (cases y) (auto split: if_splits)
    then show ?thesis using Cons.IH Cons.prems(1) False by simp
  qed
qed

lemma potential_step:
  assumes inv: "pool_inv tasks p" and st: "pool_step os h l a p = Some p'"
  shows "potential p' < potential p"
  using st
proof (cases rule: pool_step_cases)
  case (go task rest)
  then show ?thesis by (simp add: potential_def)
next
  case (retire i task r)
  have mem: "(i, task, Returned r) \<in> set (running p)" using retire(2) by (rule map_of_SomeD)
  have "sum_list (map (\<lambda>g. rank (snd (snd g))) (filter (\<lambda>g. fst g \<noteq> i) (running p)))
        < sum_list (map (\<lambda>g. rank (snd (snd g))) (running p))"
    by (rule sum_filter_less[OF mem]) simp_all
  then show ?thesis using retire(3) by (simp add: potential_def)
next
  case (work i task pc pc' m)
  have d: "distinct (map fst (running p))" using inv by (simp add: pool_inv_def)
  have "rank pc' < rank pc" using wstep_rank[OF work(3,4)] .
  then show ?thesis using sum_replace[OF d work(2), of pc'] work(5)
    by (simp add: potential_def)
qed

lemma exec_bounded:
  "pool_inv tasks p \<Longrightarrow> exec os h l sched p = Some p' \<Longrightarrow>
   length sched + potential p' \<le> potential p"
proof (induction sched arbitrary: p)
  case Nil
  then show ?case by simp
next
  case (Cons a sched)
  then obtain q where q: "pool_step os h l a p = Some q" "exec os h l sched q = Some p'"
    by (auto split: option.splits)
  have "length sched + potential p' \<le> potential q"
    using Cons.IH[OF pool_inv_step[OF Cons.prems(1) q(1)] q(2)] .
  then show ?case using potential_step[OF Cons.prems(1) q(1)] by simp
qed

lemma run_length_bounded:
  "exec os h l sched (pool_init tasks) = Some p \<Longrightarrow> length sched \<le> 7 * length tasks"
  using exec_bounded[OF pool_inv_init, of os h l sched tasks p]
  by (simp add: potential_def pool_init_def)

lemma no_deadlock:
  assumes nc: "\<not> complete p" and l: "l \<noteq> Some 0"
  shows "\<exists>a. pool_step os h l a p \<noteq> None"
proof (cases "running p")
  case Nil
  then obtain task rest where "pending p = task # rest"
    using nc by (cases "pending p") (auto simp: complete_def)
  then have "pool_step os h l Go p \<noteq> None" using Nil l
    by (auto simp: pool_step_def split: option.splits)
  then show ?thesis by blast
next
  case (Cons g gs)
  obtain i task pc where g: "g = (i, task, pc)" by (cases g) auto
  have m: "map_of (running p) i = Some (task, pc)" using Cons g by simp
  have "pool_step os h l (Step i) p \<noteq> None"
    using m by (cases pc) (auto simp: pool_step_def split: prod.splits)
  then show ?thesis by blast
qed

lemma filecount_counts:
  "filecount (walkDirectory os root t f ex) = of_nat (length (submitted (walkDirectory os root t f ex)))"
  unfolding walkDirectory_def
proof (rule Walk_preserves[where I = "\<lambda>s. filecount s = of_nat (length (submitted s))"])
  show "\<forall>path info err s. filecount s = of_nat (length (submitted s)) \<longrightarrow>
      filecount (snd (walkFn os f ex path info err s))
        = of_nat (length (submitted (snd (walkFn os f ex path info err s))))"
    by (auto simp: walkFn_def split: option.splits sum.splits prod.splits)
  show "filecount walk_init = of_nat (length (submitted walk_init))" by (simp add: walk_init_def)
qed

lemma no_zero_limit: "limit_of N \<noteq> Some 0"
  by (simp add: limit_of_def)

lemma run_completes:
  assumes "pool_inv tasks p" and "l \<noteq> Some 0"
  shows "\<exists>sched p'. exec os h l sched p = Some p' \<and> complete p'"
  using assms(1)
proof (induction "potential p" arbitrary: p rule: less_induct)
  case less
  show ?case
  proof (cases "complete p")
    case True
    then have "exec os h l [] p = Some p \<and> complete p" by simp
    then show ?thesis by blast
  next
    case False
    from no_deadlock[OF False assms(2)] obtain a q where q: "pool_step os h l a p = Some q"
      by (metis not_None_eq)
    have "potential q < potential p" using potential_step[OF less.prems q] .
    from less.hyps[OF this pool_inv_step[OF less.prems q]]
    obtain sched p' where "exec os h l sched q = Some p'" "complete p'" by blast
    then have "exec os h l (a # sched) p = Some p' \<and> complete p'" using q by simp
    then show ?thesis by blast
  qed
qed

lemma main_ends: "\<exists>sched out. main w cfg sched = Some out"
proof (cases "compilePattern w (flag_exclude cfg)")
  case (Inl e)
  then show ?thesis by (simp add: main_def)
next
  case (Inr ex)
  show ?thesis
  proof (cases "Abs w (Clean w (flag_dir cfg))")
    case (Inl e)
    then show ?thesis using Inr by (simp add: main_def)
  next
    case root: (Inr root)
    obtain sched p where sp:
      "exec (sys w) (flag_hash cfg) (limit_of (flag_poolsize cfg)) sched
         (pool_init (submitted (run_walk w cfg ex root))) = Some p" "complete p"
      using run_completes[OF pool_inv_init no_zero_limit] by blast
    have "\<exists>out. main w cfg sched = Some out"
      using Inr root sp by (simp add: main_def run_pool_def Let_def split: option.splits)
    then show ?thesis by blast
  qed
qed

lemmas main_defs = main_def compilePattern_def Abs_def IsAbs_def demo_world_def lost_world_def
  default_flags_def seq_flags_def link_flags_def run_walk_def run_pool_def walkDirectory_def
  Walk_def walk_init_def walkFn_def checkSymlink_def Join_def seq_all_def seq_start_def
  seq_rest_def complete_def

text \<open>
  C5, as the code has it. Whenever \<open>main\<close> comes to its end the exit status is 0 or 1,
  and it is 1 exactly when the exclusion pattern does not compile, or the root directory
  cannot be made absolute (\<open>filepath.Abs\<close> fails), or some worker returned an error. A
  pattern that does not compile, like a root that cannot be made absolute, ends the
  program before any walk: nothing else is written. Otherwise \<open>eg.Wait\<close> returns only
  when every submitted task has returned, each exactly once, whether or not some task
  failed; the error reported is then the first one in the order in which the tasks
  finished, and with no error the program prints the count, which is the number of
  submissions, and exits with status 0. A run cannot go on for ever (it has at most seven
  scheduler actions per task) and cannot get stuck before every task has returned; so
  for every setting and every command line \<open>main\<close> does come to its end.
\<close>

theorem main_exit_status:
  assumes m: "main w cfg sched = Some out"
  shows "(exit_status out = 0 \<or> exit_status out = 1)
   \<and> ((exit_status out \<noteq> 0) =
        ((\<exists>e. compilePattern w (flag_exclude cfg) = Inl e)
         \<or> (\<exists>e. Abs w (Clean w (flag_dir cfg)) = Inl e)
         \<or> (\<exists>ex root p i e. compilePattern w (flag_exclude cfg) = Inr ex
               \<and> Abs w (Clean w (flag_dir cfg)) = Inr root
               \<and> run_pool w cfg sched (run_walk w cfg ex root) = Some p
               \<and> (i, Some e) \<in> set (returned p))))
   \<and> (compilePattern w (flag_exclude cfg) = Inl e \<longrightarrow>
        out = \<lparr>exit_status = 1, result_lines = [], walk_lines = [], worker_lines = [],
               last_line = ''invalid exclude pattern: '' @ errorString e @ ''\<newline>''\<rparr>)
   \<and> (compilePattern w (flag_exclude cfg) = Inr ex \<and> Abs w (Clean w (flag_dir cfg)) = Inl e \<longrightarrow>
        out = \<lparr>exit_status = 1, result_lines = [], walk_lines = [], worker_lines = [],
               last_line = ''Error: '' @ errorString e @ ''\<newline>''\<rparr>)
   \<and> (compilePattern w (flag_exclude cfg) = Inr ex \<and> Abs w (Clean w (flag_dir cfg)) = Inr root
        \<and> run_pool w cfg sched (run_walk w cfg ex root) = Some p \<longrightarrow>
          complete p \<and> distinct (map fst (returned p))
        \<and> set (map fst (returned p)) = {..<length (submitted (run_walk w cfg ex root))}
        \<and> result_lines out = stdout (mem p)
        \<and> filecount (run_walk w cfg ex root) = of_nat (length (submitted (run_walk w cfg ex root)))
        \<and> (case first_error (map snd (returned p)) of
              Some e \<Rightarrow> exit_status out = 1
                        \<and> last_line out = ''Error: '' @ errorString e @ ''\<newline>''
            | None \<Rightarrow> exit_status out = 0
                      \<and> last_line out = ''Files processed: ''
                           @ decimal (unat (filecount (run_walk w cfg ex root))) @ ''\<newline>''))
   \<and> (run_pool w cfg s ws = Some q \<longrightarrow> length s \<le> 7 * length (submitted ws))
   \<and> (run_pool w cfg s ws = Some q \<and> \<not> complete q \<longrightarrow>
        (\<exists>a. pool_step (sys w) (flag_hash cfg) (limit_of (flag_poolsize cfg)) a q \<noteq> None))
   \<and> (\<exists>sched' out'. main w' cfg' sched' = Some out')"
proof -
  have T3: "\<exists>sched' out'. main w' cfg' sched' = Some out'" by (rule main_ends)
  have T1: "run_pool w cfg s ws = Some q \<longrightarrow> length s \<le> 7 * length (submitted ws)"
    using run_length_bounded[of "sys w" "flag_hash cfg" "limit_of (flag_poolsize cfg)" s "submitted ws" q]
    by (simp add: run_pool_def)
  have T2: "run_pool w cfg s ws = Some q \<and> \<not> complete q \<longrightarrow>
        (\<exists>a. pool_step (sys w) (flag_hash cfg) (limit_of (flag_poolsize cfg)) a q \<noteq> None)"
    using no_deadlock[OF _ no_zero_limit] by blast
  show ?thesis
  proof (cases "compilePattern w (flag_exclude cfg)")
    case (Inl e0)
    then have o: "out = \<lparr>exit_status = 1, result_lines = [], walk_lines = [], worker_lines = [],
               last_line = ''invalid exclude pattern: '' @ errorString e0 @ ''\<newline>''\<rparr>"
      using m by (simp add: main_def)
    have A: "exit_status out = 0 \<or> exit_status out = 1" using o by simp
    have B: "(exit_status out \<noteq> 0) =
        ((\<exists>e. compilePattern w (flag_exclude cfg) = Inl e)
         \<or> (\<exists>e. Abs w (Clean w (flag_dir cfg)) = Inl e)
         \<or> (\<exists>ex root p i e. compilePattern w (flag_exclude cfg) = Inr ex
               \<and> Abs w (Clean w (flag_dir cfg)) = Inr root
               \<and> run_pool w cfg sched (run_walk w cfg ex root) = Some p
               \<and> (i, Some e) \<in> set (returned p)))"
      using o Inl by simp
    have C3: "compilePattern w (flag_exclude cfg) = Inl e \<longrightarrow>
        out = \<lparr>exit_status = 1, result_lines = [], walk_lines = [], worker_lines = [],
               last_line = ''invalid exclude pattern: '' @ errorString e @ ''\<newline>''\<rparr>"
      using Inl o by simp
    have C4: "\<not> (compilePattern w (flag_exclude cfg) = Inr ex \<and> Abs w (Clean w (flag_dir cfg)) = Inl e)"
      using Inl by simp
    have D': "\<not> (compilePattern w (flag_exclude cfg) = Inr ex \<and> Abs w (Clean w (flag_dir cfg)) = Inr root
        \<and> run_pool w cfg sched (run_walk w cfg ex root) = Some p)"
      using Inl by simp
    show ?thesis using A B C3 C4 D' T1 T2 T3 by blast
  next
    case (Inr ex0)
    show ?thesis
    proof (cases "Abs w (Clean w (flag_dir cfg))")
      case (Inl e0)
      then have o: "out = \<lparr>exit_status = 1, result_lines = [], walk_lines = [], worker_lines = [],
               last_line = ''Error: '' @ errorString e0 @ ''\<newline>''\<rparr>"
        using m Inr by (simp add: main_def)
      have A: "exit_status out = 0 \<or> exit_status out = 1" using o by simp
      have B: "(exit_status out \<noteq> 0) =
        ((\<exists>e. compilePattern w (flag_exclude cfg) = Inl e)
         \<or> (\<exists>e. Abs w (Clean w (flag_dir cfg)) = Inl e)
         \<or> (\<exists>ex root p i e. compilePattern w (flag_exclude cfg) = Inr ex
               \<and> Abs w (Clean w (flag_dir cfg)) = Inr root
               \<and> run_pool w cfg sched (run_walk w cfg ex root) = Some p
               \<and> (i, Some e) \<in> set (returned p)))"
        using o Inl by simp
      have C3: "compilePattern w (flag_exclude cfg) = Inl e \<longrightarrow>
        out = \<lparr>exit_status = 1, result_lines = [], walk_lines = [], worker_lines = [],
               last_line = ''invalid exclude pattern: '' @ errorString e @ ''\<newline>''\<rparr>"
        using Inr by simp
      have C4: "compilePattern w (flag_exclude cfg) = Inr ex \<and> Abs w (Clean w (flag_dir cfg)) = Inl e \<longrightarrow>
        out = \<lparr>exit_status = 1, result_lines = [], walk_lines = [], worker_lines = [],
               last_line = ''Error: '' @ errorString e @ ''\<newline>''\<rparr>"
        using Inl o by simp
      have D': "\<not> (compilePattern w (flag_exclude cfg) = Inr ex \<and> Abs w (Clean w (flag_dir cfg)) = Inr root
        \<and> run_pool w cfg sched (run_walk w cfg ex root) = Some p)"
        using Inl by simp
      show ?thesis using A B C3 C4 D' T1 T2 T3 by blast
    next
      case root: (Inr root0)
      let ?ws = "run_walk w cfg ex0 root0"
      obtain p0 where p0: "run_pool w cfg sched ?ws = Some p0"
        using m Inr root by (auto simp: main_def Let_def split: option.splits)
      have c: "complete p0"
        using m Inr root p0 by (auto simp: main_def Let_def split: if_splits)
      have inv: "pool_inv (submitted ?ws) p0"
        using p0 by (auto simp: run_pool_def intro: pool_inv_exec)
      note R = complete_all_returned[OF inv c]
      have fe: "firstErr p0 = first_error (map snd (returned p0))" using R by simp
      have fc: "filecount ?ws = of_nat (length (submitted ?ws))"
        by (simp add: run_walk_def filecount_counts)
      have o: "out = (case firstErr p0 of
                 Some err \<Rightarrow> \<lparr>exit_status = 1, result_lines = stdout (mem p0),
                                       walk_lines = diag ?ws, worker_lines = stderr (mem p0),
                                       last_line = ''Error: '' @ errorString err @ ''\<newline>''\<rparr>
               | None \<Rightarrow> \<lparr>exit_status = 0, result_lines = stdout (mem p0),
                                       walk_lines = diag ?ws, worker_lines = stderr (mem p0),
                                       last_line = ''Files processed: ''
                                         @ decimal (unat (filecount ?ws)) @ ''\<newline>''\<rparr>)"
        using m Inr root p0 c by (auto simp: main_def Let_def split: option.splits)
      have A: "exit_status out = 0 \<or> exit_status out = 1"
        using o by (auto split: option.splits)
      have E: "(exit_status out \<noteq> 0) = (\<exists>i e. (i, Some e) \<in> set (returned p0))"
      proof -
        have "(exit_status out \<noteq> 0) = (first_error (map snd (returned p0)) \<noteq> None)"
          using o fe by (auto split: option.splits)
        also have "\<dots> = (\<exists>e. Some e \<in> set (map snd (returned p0)))"
          by (rule first_error_Some_iff)
        also have "\<dots> = (\<exists>i e. (i, Some e) \<in> set (returned p0))" by force
        finally show ?thesis .
      qed
      have B: "(exit_status out \<noteq> 0) =
        ((\<exists>e. compilePattern w (flag_exclude cfg) = Inl e)
         \<or> (\<exists>e. Abs w (Clean w (flag_dir cfg)) = Inl e)
         \<or> (\<exists>ex root p i e. compilePattern w (flag_exclude cfg) = Inr ex
               \<and> Abs w (Clean w (flag_dir cfg)) = Inr root
               \<and> run_pool w cfg sched (run_walk w cfg ex root) = Some p
               \<and> (i, Some e) \<in> set (returned p)))"
        using E Inr root p0 by auto
      have D: "complete p0 \<and> distinct (map fst (returned p0))
        \<and> set (map fst (returned p0)) = {..<length (submitted ?ws)}
        \<and> result_lines out = stdout (mem p0)
        \<and> filecount ?ws = of_nat (length (submitted ?ws))
        \<and> (case first_error (map snd (returned p0)) of
              Some e \<Rightarrow> exit_status out = 1
                        \<and> last_line out = ''Error: '' @ errorString e @ ''\<newline>''
            | None \<Rightarrow> exit_status out = 0
                      \<and> last_line out = ''Files processed: ''
                           @ decimal (unat (filecount ?ws)) @ ''\<newline>'')"
        using c R fc o fe by (auto split: option.splits)
      have C3: "compilePattern w (flag_exclude cfg) = Inl e \<longrightarrow>
        out = \<lparr>exit_status = 1, result_lines = [], walk_lines = [], worker_lines = [],
               last_line = ''invalid exclude pattern: '' @ errorString e @ ''\<newline>''\<rparr>"
        using Inr by simp
      have C4: "compilePattern w (flag_exclude cfg) = Inr ex \<and> Abs w (Clean w (flag_dir cfg)) = Inl e \<longrightarrow>
        out = \<lparr>exit_status = 1, result_lines = [], walk_lines = [], worker_lines = [],
               last_line = ''Error: '' @ errorString e @ ''\<newline>''\<rparr>"
        using root by simp
      have D': "compilePattern w (flag_exclude cfg) = Inr ex \<and> Abs w (Clean w (flag_dir cfg)) = Inr root
        \<and> run_pool w cfg sched (run_walk w cfg ex root) = Some p \<longrightarrow>
          complete p \<and> distinct (map fst (returned p))
        \<and> set (map fst (returned p)) = {..<length (submitted (run_walk w cfg ex root))}
        \<and> result_lines out = stdout (mem p)
        \<and> filecount (run_walk w cfg ex root) = of_nat (length (submitted (run_walk w cfg ex root)))
        \<and> (case first_error (map snd (returned p)) of
              Some e \<Rightarrow> exit_status out = 1
                        \<and> last_line out = ''Error: '' @ errorString e @ ''\<newline>''
            | None \<Rightarrow> exit_status out = 0
                      \<and> last_line out = ''Files processed: ''
                           @ decimal (unat (filecount (run_walk w cfg ex root))) @ ''\<newline>'')"
      proof (intro impI)
        assume h: "compilePattern w (flag_exclude cfg) = Inr ex \<and> Abs w (Clean w (flag_dir cfg)) = Inr root
          \<and> run_pool w cfg sched (run_walk w cfg ex root) = Some p"
        then have e1: "ex = ex0" and e2: "root = root0" using Inr root by simp_all
        then have e3: "p = p0" using h p0 by simp
        show "complete p \<and> distinct (map fst (returned p))
        \<and> set (map fst (returned p)) = {..<length (submitted (run_walk w cfg ex root))}
        \<and> result_lines out = stdout (mem p)
        \<and> filecount (run_walk w cfg ex root) = of_nat (length (submitted (run_walk w cfg ex root)))
        \<and> (case first_error (map snd (returned p)) of
              Some e \<Rightarrow> exit_status out = 1
                        \<and> last_line out = ''Error: '' @ errorString e @ ''\<newline>''
            | None \<Rightarrow> exit_status out = 0
                      \<and> last_line out = ''Files processed: ''
                           @ decimal (unat (filecount (run_walk w cfg ex root))) @ ''\<newline>'')"
          unfolding e1 e2 e3 by (rule D)
      qed
      show ?thesis using A B C3 C4 D' T1 T2 T3 by blast
    qed
  qed
qed

theorem main_exit_status_witness:
  "main demo_world seq_flags seq_all =
     Some \<lparr>exit_status = 0,
           result_lines = [''6968  /r/a.txt  -\<newline>'', ''6968  /r/b.txt  *\<newline>'',
                           ''79656b  /r/secret/k.txt  -\<newline>''],
           walk_lines = [''unable to walk /r/gone: lstat /r/gone: no such file or directory\<newline>'',
                         ''skipping non-regular file /r/link\<newline>'',
                         ''unable to walk /r/locked: open /r/locked: permission denied\<newline>'',
                         ''skipping non-regular file /r/peek\<newline>'',
                         ''skipping non-regular file /r/pipe\<newline>'',
                         ''skipping non-regular file /r/stale\<newline>''],
           worker_lines = [],
           last_line = ''Files processed: 3\<newline>''\<rparr>
   \<and> length seq_all \<le> 7 * 3
   \<and> main demo_world link_flags [Go, Step 0, Step 0, Step 0, Step 0] =
     Some \<lparr>exit_status = 1, result_lines = [], walk_lines = [], worker_lines = [],
           last_line = ''Error: open a.txt: no such file or directory\<newline>''\<rparr>
   \<and> main demo_world (default_flags\<lparr>flag_exclude := ''(''\<rparr>) [] =
     Some \<lparr>exit_status = 1, result_lines = [], walk_lines = [], worker_lines = [],
           last_line = ''invalid exclude pattern: error parsing regexp: (\<newline>''\<rparr>"
proof -
  let ?out = "\<lparr>exit_status = 0,
           result_lines = [''6968  /r/a.txt  -\<newline>'', ''6968  /r/b.txt  *\<newline>'',
                           ''79656b  /r/secret/k.txt  -\<newline>''],
           walk_lines = [''unable to walk /r/gone: lstat /r/gone: no such file or directory\<newline>'',
                         ''skipping non-regular file /r/link\<newline>'',
                         ''unable to walk /r/locked: open /r/locked: permission denied\<newline>'',
                         ''skipping non-regular file /r/peek\<newline>'',
                         ''skipping non-regular file /r/pipe\<newline>'',
                         ''skipping non-regular file /r/stale\<newline>''],
           worker_lines = [],
           last_line = ''Files processed: 3\<newline>''\<rparr>"
  let ?ws = "run_walk demo_world seq_flags None ''/r''"
  have sub: "submitted ?ws = [(''/r/a.txt'', file_info 5 2), (''/r/b.txt'', file_info 5 2),
          (''/r/secret/k.txt'', file_info 12 1)]"
    by (simp add: main_defs demo_defs mode_defs)
  have m1: "main demo_world seq_flags seq_all = Some ?out"
    by (simp add: main_defs demo_defs mode_defs sched_defs decimal.simps)
  have rp: "run_pool demo_world seq_flags seq_all ?ws \<noteq> None"
    unfolding run_pool_def sub by (simp add: main_defs sched_defs)
  then have rp': "run_pool demo_world seq_flags seq_all ?ws
       = Some (the (run_pool demo_world seq_flags seq_all ?ws))" by simp
  have b: "length seq_all \<le> 7 * length (submitted ?ws)"
    using main_exit_status[OF m1, where s = seq_all and ws = ?ws
        and q = "the (run_pool demo_world seq_flags seq_all ?ws)"] rp'
    by blast
  have m2: "main demo_world link_flags [Go, Step 0, Step 0, Step 0, Step 0] =
     Some \<lparr>exit_status = 1, result_lines = [], walk_lines = [], worker_lines = [],
           last_line = ''Error: open a.txt: no such file or directory\<newline>''\<rparr>"
    by (simp add: main_defs demo_defs mode_defs sched_defs)
  have m3: "main demo_world (default_flags\<lparr>flag_exclude := ''(''\<rparr>) [] =
     Some \<lparr>exit_status = 1, result_lines = [], walk_lines = [], worker_lines = [],
           last_line = ''invalid exclude pattern: error parsing regexp: (\<newline>''\<rparr>"
    by (simp add: main_defs)
  show ?thesis using m1 b m2 m3 by (simp add: sub)
qed

text \<open>
  The claim as first stated fails when the working directory cannot be determined: with
  the default flags (no pattern, directory \<open>.\<close>) the program exits with status 1
  although no pattern failed to compile and no worker ever ran.
\<close>

theorem exit_failure_without_worker_error:
  "compilePattern lost_world (flag_exclude default_flags) = Inr None
   \<and> Abs lost_world (Clean lost_world (flag_dir default_flags))
       = Inl (OSError ''getwd: no such file or directory'')
   \<and> main lost_world default_flags [] =
       Some \<lparr>exit_status = 1, result_lines = [], walk_lines = [], worker_lines = [],
             last_line = ''Error: getwd: no such file or directory\<newline>''\<rparr>"
  by (simp add: main_defs)

end
